theory Spec2Isabelle
  imports Main "HOL-Library.Word"
begin

section \<open>The file header of the NachOS file system (filesys/filehdr.cc)\<close>

text \<open>
  A shallow embedding of \<^verbatim>\<open>FileHeader\<close>: the chained i-node of the MP4 file system.
  C \<^verbatim>\<open>int\<close>s are modelled as unbounded \<open>int\<close>; no computation of the functions
  below overflows 32 bits on the non-negative sizes and offsets the theorems speak about.
  \<^verbatim>\<open>fileSize - MaxFileSize\<close> in \<open>Allocate\<close> overflows in C for a \<open>fileSize\<close> below
  \<^verbatim>\<open>INT_MIN + MaxFileSize\<close>; the model has the C value from there on, so for every
  \<open>fileSize \<ge> 0\<close>.
  A fatal \<^verbatim>\<open>ASSERT\<close>, an access outside an array or buffer, and a call through a null or
  deleted pointer are values of the type \<open>error\<close>.
\<close>

subsection \<open>Constants\<close>

text \<open>
  \<^verbatim>\<open>SectorSize\<close> (machine/disk.h) and \<^verbatim>\<open>NumDirect\<close> (filesys/filehdr.h) are declared
  outside filehdr.cc, so every function takes them as a parameter.
\<close>

record params =
  SectorSize :: int
  NumDirect :: int

definition MaxFileSize :: "params \<Rightarrow> int" where
  "MaxFileSize c = NumDirect c * SectorSize c"

text \<open>
  Modelled from the spec: the header files that define the two constants are absent;
  the spec states \<open>SectorSize = 128\<close>, \<open>NumDirect = 30\<close> (and so \<open>MaxFileSize = 3840\<close>).
\<close>

definition nachos :: params where
  "nachos = \<lparr>SectorSize = 128, NumDirect = 30\<rparr>"

text \<open>
  Modelled from the spec: the macro \<^verbatim>\<open>divRoundUp\<close> (lib/utility.h) is absent; the spec
  gives \<open>sectorCount = ceil(contentBytes / SectorSize)\<close>. For \<open>0 < s\<close> the value below is
  that ceiling.
\<close>

definition divRoundUp :: "int \<Rightarrow> int \<Rightarrow> int" where
  "divRoundUp n s = (n + s - 1) div s"

text \<open>C's \<^verbatim>\<open>/\<close> on \<^verbatim>\<open>int\<close> truncates towards zero.\<close>

definition c_div :: "int \<Rightarrow> int \<Rightarrow> int" where
  "c_div a b = sgn a * sgn b * (\<bar>a\<bar> div \<bar>b\<bar>)"

datatype error = AssertionFailed | OutOfBounds | NullDeref | UseAfterFree

subsection \<open>The Free-Space Map\<close>

text \<open>
  Modelled from the spec: the class \<^verbatim>\<open>PersistentBitmap\<close> (filesys/pbitmap.cc,
  lib/bitmap.cc) is absent. The spec gives a map over a fixed universe of sector indices
  that tracks which sectors are free and which are used. The map is a list of bits,
  \<open>True\<close> for a used sector.
\<close>

type_synonym bitmap = "bool list"

text \<open>
  Modelled from the spec: \<^verbatim>\<open>NumClear\<close> is absent; it is the spec's \<open>countFree() \<rightarrow> int\<close>,
  the number of free sectors.
\<close>

definition NumClear :: "bitmap \<Rightarrow> int" where
  "NumClear m = int (length (filter (\<lambda>b. \<not> b) m))"

text \<open>
  Modelled from the spec: \<^verbatim>\<open>FindAndSet\<close> is absent; it is the spec's
  \<open>findAndClaim() \<rightarrow> sectorIndex | -1\<close>, an atomic find-and-set. It claims a free sector
  and returns its index, or returns \<open>-1\<close> and leaves the map alone when no sector is free.
  The sector claimed is the free sector of lowest index, found by \<open>find_clear\<close>.
\<close>

fun find_clear :: "bitmap \<Rightarrow> nat option" where
  "find_clear [] = None"
| "find_clear (b # bs) = (if b then map_option Suc (find_clear bs) else Some 0)"

definition FindAndSet :: "bitmap \<Rightarrow> int \<times> bitmap" where
  "FindAndSet m = (case find_clear m of None \<Rightarrow> (- 1, m) | Some i \<Rightarrow> (int i, m[i := True]))"

text \<open>
  Modelled from the spec: \<^verbatim>\<open>Test\<close> is absent; it is the spec's
  \<open>test(sectorIndex) \<rightarrow> bool\<close>, true of a sector marked used. An index outside the map is
  not marked.
\<close>

definition Test :: "bitmap \<Rightarrow> int \<Rightarrow> bool" where
  "Test m s = (0 \<le> s \<and> nat s < length m \<and> m ! nat s)"

text \<open>
  Modelled from the spec: \<^verbatim>\<open>Clear\<close> is absent; it is the spec's \<open>clear(sectorIndex)\<close>,
  which marks the sector free.
\<close>

definition Clear :: "bitmap \<Rightarrow> int \<Rightarrow> bitmap" where
  "Clear m s = (if 0 \<le> s \<and> nat s < length m then m[nat s := False] else m)"

text \<open>The set of sectors a map marks as used.\<close>

definition marked :: "bitmap \<Rightarrow> int set" where
  "marked m = {s. Test m s}"

subsection \<open>The header\<close>

text \<open>
  \<^verbatim>\<open>nextHeader\<close> is a C++ pointer: null, pointing to a live header, or (after
  \<^verbatim>\<open>delete\<close>, which does not reset it) dangling.
\<close>

datatype 'a ptr = Null | Live 'a | Dangling

datatype hdr = Hdr
  (numBytes: int)
  (numSectors: int)
  (dataSectors: "int list")
  (nextHeader: "hdr ptr")
  (nextHeaderSector: int)

text \<open>
  The constructor: \<^verbatim>\<open>memset(dataSectors, -1, sizeof(dataSectors))\<close> sets every byte to
  \<^verbatim>\<open>0xFF\<close>, so each of the \<open>NumDirect\<close> entries reads \<open>-1\<close>.
\<close>

definition FileHeader :: "params \<Rightarrow> hdr" where
  "FileHeader c = Hdr (- 1) (- 1) (replicate (nat (NumDirect c)) (- 1)) Null (- 1)"

subsection \<open>Allocate\<close>

text \<open>
  The loop \<^verbatim>\<open>for (i = 0; i < numSectors; i++) { dataSectors[i] = freeMap->FindAndSet();
  ASSERT(dataSectors[i] >= 0); }\<close>.
\<close>

function alloc_loop :: "bitmap \<Rightarrow> int list \<Rightarrow> nat \<Rightarrow> int \<Rightarrow> error + (bitmap \<times> int list)" where
  "alloc_loop m ds i n =
     (if int i < n then
        (case FindAndSet m of (s, m') \<Rightarrow>
           if i < length ds then
             (if 0 \<le> s then alloc_loop m' (ds[i := s]) (Suc i) n else Inl AssertionFailed)
           else Inl OutOfBounds)
      else Inr (m, ds))"
  by pat_completeness auto
termination
  by (relation "measure (\<lambda>(m, ds, i, n). nat n - i)") auto

text \<open>
  What the termination of \<open>Allocate\<close> rests on: a successful \<open>FindAndSet\<close> leaves one
  free sector less, and the loop never adds one.
\<close>

lemma find_clear_None: "find_clear m = None \<longleftrightarrow> (\<forall>b \<in> set m. b)"
  by (induction m) auto

lemma find_clear_Some:
  "find_clear m = Some i \<Longrightarrow> i < length m \<and> \<not> m ! i"
  by (induction m arbitrary: i) (auto split: if_splits)

lemma NumClear_nonneg: "0 \<le> NumClear m"
  by (simp add: NumClear_def)

lemma NumClear_set_bit:
  "i < length m \<Longrightarrow> \<not> m ! i \<Longrightarrow> NumClear (m[i := True]) = NumClear m - 1"
proof (induction m arbitrary: i)
  case Nil
  then show ?case by simp
next
  case (Cons b bs)
  show ?case
  proof (cases i)
    case 0
    with Cons.prems show ?thesis by (simp add: NumClear_def)
  next
    case (Suc j)
    with Cons.prems have "NumClear (bs[j := True]) = NumClear bs - 1"
      by (intro Cons.IH) auto
    with Suc show ?thesis by (simp add: NumClear_def)
  qed
qed

lemma NumClear_zero: "NumClear m = 0 \<longleftrightarrow> find_clear m = None"
  by (auto simp: NumClear_def find_clear_None filter_empty_conv)

lemma FindAndSet_fail:
  "FindAndSet m = (s, m') \<Longrightarrow> s < 0 \<Longrightarrow> s = - 1 \<and> m' = m \<and> NumClear m = 0"
  by (auto simp: FindAndSet_def NumClear_zero split: option.splits)

lemma FindAndSet_ok:
  assumes "FindAndSet m = (s, m')" "0 \<le> s"
  shows "\<not> Test m s" "length m' = length m" "NumClear m' = NumClear m - 1"
    "marked m' = insert s (marked m)" "nat s < length m"
proof -
  from assms obtain i where i: "find_clear m = Some i" "s = int i" "m' = m[i := True]"
    by (auto simp: FindAndSet_def split: option.splits)
  from find_clear_Some [OF i(1)] have b: "i < length m" "\<not> m ! i" by auto
  show "\<not> Test m s" using i b by (simp add: Test_def)
  show "length m' = length m" using i by simp
  show "NumClear m' = NumClear m - 1" using i b by (simp add: NumClear_set_bit)
  show "nat s < length m" using i b by simp
  show "marked m' = insert s (marked m)"
    using i b by (auto simp: marked_def Test_def nth_list_update)
qed

lemma alloc_loop_NumClear:
  "alloc_loop m ds i n = Inr (m', ds') \<Longrightarrow> NumClear m' \<le> NumClear m"
proof (induction m ds i n rule: alloc_loop.induct)
  case (1 m ds i n)
  show ?case
  proof (cases "int i < n")
    case False
    with "1.prems" show ?thesis by simp
  next
    case True
    obtain s m1 where f: "FindAndSet m = (s, m1)" by (cases "FindAndSet m")
    from True f "1.prems" have c: "i < length ds" "0 \<le> s"
      and r: "alloc_loop m1 (ds[i := s]) (Suc i) n = Inr (m', ds')"
      by (auto split: if_splits)
    from "1.IH" [OF True f [symmetric] c r] FindAndSet_ok(3) [OF f c(2)]
    show ?thesis by simp
  qed
qed

text \<open>
  \<^verbatim>\<open>FileHeader::Allocate\<close>. The result is the map, the header and the returned flag.
  \<^verbatim>\<open>new FileHeader\<close> is the constructor's value; \<^verbatim>\<open>delete nextHeader\<close> leaves the
  pointer dangling.
\<close>

function Allocate :: "params \<Rightarrow> bitmap \<Rightarrow> hdr \<Rightarrow> int \<Rightarrow> error + (bitmap \<times> hdr \<times> bool)" where
  "Allocate c freeMap h fileSize =
     (let remaining = fileSize - MaxFileSize c;
          nb = (if 0 < remaining then MaxFileSize c else fileSize);
          ns = divRoundUp nb (SectorSize c)
      in if NumClear freeMap < ns
         then Inr (freeMap, Hdr nb ns (dataSectors h) (nextHeader h) (nextHeaderSector h), False)
         else
           (case alloc_loop freeMap (dataSectors h) 0 ns of
              Inl e \<Rightarrow> Inl e
            | Inr (m1, ds) \<Rightarrow>
                if 0 < remaining then
                  (case FindAndSet m1 of (s, m2) \<Rightarrow>
                     if s = - 1 then Inr (m2, Hdr nb ns ds Dangling s, False)
                     else
                       (case Allocate c m2 (FileHeader c) remaining of
                          Inl e \<Rightarrow> Inl e
                        | Inr (m3, nxt, ok) \<Rightarrow> Inr (m3, Hdr nb ns ds (Live nxt) s, ok)))
                else Inr (m1, Hdr nb ns ds (nextHeader h) (nextHeaderSector h), True)))"
  by pat_completeness auto

termination
proof (relation "measure (\<lambda>(c, m, h, f). nat (NumClear m))", goal_cases)
  case 1
  show ?case by simp
next
  case (2 c freeMap h fileSize remaining nb ns x2 m1 ds s m2)
  then have l: "alloc_loop freeMap (dataSectors h) 0 ns = Inr (m1, ds)"
    and f: "FindAndSet m1 = (s, m2)" and s: "s \<noteq> - 1"
    by auto
  from f s have "0 \<le> s" using FindAndSet_fail [OF f] by fastforce
  from FindAndSet_ok(3) [OF f this] alloc_loop_NumClear [OF l] NumClear_nonneg [of m2]
  show ?case by simp
qed

declare alloc_loop.simps [simp del] Allocate.simps [simp del]

subsection \<open>Deallocate\<close>

text \<open>
  The loop \<^verbatim>\<open>for (i = 0; i < numSectors; i++) { ASSERT(freeMap->Test(dataSectors[i]));
  freeMap->Clear(dataSectors[i]); }\<close>.
\<close>

function dealloc_loop :: "bitmap \<Rightarrow> int list \<Rightarrow> nat \<Rightarrow> int \<Rightarrow> error + bitmap" where
  "dealloc_loop m ds i n =
     (if int i < n then
        (if i < length ds then
           (if Test m (ds ! i) then dealloc_loop (Clear m (ds ! i)) ds (Suc i) n
            else Inl AssertionFailed)
         else Inl OutOfBounds)
      else Inr m)"
  by pat_completeness auto
termination
  by (relation "measure (\<lambda>(m, ds, i, n). nat n - i)") auto

declare dealloc_loop.simps [simp del]

fun Deallocate :: "bitmap \<Rightarrow> hdr \<Rightarrow> error + bitmap" where
  "Deallocate freeMap (Hdr nb ns ds Null nxs) = dealloc_loop freeMap ds 0 ns"
| "Deallocate freeMap (Hdr nb ns ds (Live nxt) nxs) =
     (case Deallocate freeMap nxt of
        Inl e \<Rightarrow> Inl e
      | Inr m1 \<Rightarrow> dealloc_loop m1 ds 0 ns)"
| "Deallocate freeMap (Hdr nb ns ds Dangling nxs) = Inl UseAfterFree"

subsection \<open>FileLength and ByteToSector\<close>

text \<open>
  Both are non-\<^verbatim>\<open>const\<close> member functions: the model returns the header as the call
  leaves it, next to the returned value. Neither takes a Free-Space Map, and neither
  reaches the disk through \<^verbatim>\<open>kernel\<close>.
\<close>

fun FileLength :: "hdr \<Rightarrow> hdr \<times> (error + int)" where
  "FileLength (Hdr nb ns ds Null nxs) = (Hdr nb ns ds Null nxs, Inr nb)"
| "FileLength (Hdr nb ns ds (Live nxt) nxs) =
     (case FileLength nxt of
        (nxt', r) \<Rightarrow>
          (Hdr nb ns ds (Live nxt') nxs,
           case r of Inl e \<Rightarrow> Inl e | Inr l \<Rightarrow> Inr (nb + l)))"
| "FileLength (Hdr nb ns ds Dangling nxs) = (Hdr nb ns ds Dangling nxs, Inl UseAfterFree)"

text \<open>\<^verbatim>\<open>dataSectors[idx]\<close>, an error outside the array.\<close>

definition read_entry :: "int list \<Rightarrow> int \<Rightarrow> error + int" where
  "read_entry ds idx = (if 0 \<le> idx \<and> nat idx < length ds then Inr (ds ! nat idx) else Inl OutOfBounds)"

fun ByteToSector :: "params \<Rightarrow> hdr \<Rightarrow> int \<Rightarrow> hdr \<times> (error + int)" where
  "ByteToSector c (Hdr nb ns ds Null nxs) offset =
     (let idx = c_div offset (SectorSize c)
      in if idx < NumDirect c then (Hdr nb ns ds Null nxs, read_entry ds idx)
         else (Hdr nb ns ds Null nxs, Inr (- 1)))"
| "ByteToSector c (Hdr nb ns ds (Live nxt) nxs) offset =
     (let idx = c_div offset (SectorSize c)
      in if idx < NumDirect c then (Hdr nb ns ds (Live nxt) nxs, read_entry ds idx)
         else (case ByteToSector c nxt (offset - MaxFileSize c) of
                 (nxt', r) \<Rightarrow> (Hdr nb ns ds (Live nxt') nxs, r)))"
| "ByteToSector c (Hdr nb ns ds Dangling nxs) offset =
     (let idx = c_div offset (SectorSize c)
      in if idx < NumDirect c then (Hdr nb ns ds Dangling nxs, read_entry ds idx)
         else (Hdr nb ns ds Dangling nxs, Inl UseAfterFree))"

subsection \<open>The on-disk record: WriteBack and FetchFrom\<close>

type_synonym byte = "8 word"

text \<open>
  \<^verbatim>\<open>memcpy\<close> of an \<^verbatim>\<open>int\<close>: four bytes (\<^verbatim>\<open>sizeof(int) = 4\<close>), two's complement, least
  significant byte first.
\<close>

definition enc32 :: "int \<Rightarrow> byte list" where
  "enc32 x = map (\<lambda>k. word_of_int (x div 256 ^ k)) [0, 1, 2, 3 :: nat]"

definition dec32 :: "byte list \<Rightarrow> int" where
  "dec32 bs =
     (let u = foldr (\<lambda>b a. uint b + 256 * a) bs 0
      in if 2 ^ 31 \<le> u then u - 2 ^ 32 else u)"

fun chunks4 :: "byte list \<Rightarrow> byte list list" where
  "chunks4 (a # b # c # d # bs) = [a, b, c, d] # chunks4 bs"
| "chunks4 bs = []"

text \<open>
  \<^verbatim>\<open>memcpy(buf + off, src, n)\<close> and \<^verbatim>\<open>memcpy(dst, buf + off, n)\<close> on a buffer: a copy
  that leaves the buffer is an error.
\<close>

definition put_bytes :: "byte list \<Rightarrow> nat \<Rightarrow> byte list \<Rightarrow> error + byte list" where
  "put_bytes buf off bs =
     (if off + length bs \<le> length buf
      then Inr (take off buf @ bs @ drop (off + length bs) buf)
      else Inl OutOfBounds)"

definition get_bytes :: "byte list \<Rightarrow> nat \<Rightarrow> nat \<Rightarrow> error + byte list" where
  "get_bytes buf off n =
     (if off + n \<le> length buf then Inr (take n (drop off buf)) else Inl OutOfBounds)"

text \<open>
  Modelled from the spec: the class \<^verbatim>\<open>SynchDisk\<close> (filesys/synchdisk.cc) is absent; the
  spec gives a block store of fixed-size sectors. The disk maps a sector number to the
  bytes last written there.
\<close>

type_synonym disk = "int \<Rightarrow> byte list"

text \<open>
  Modelled from the spec: \<^verbatim>\<open>ReadSector\<close> is absent; it is the spec's blocking
  \<open>readSector(sectorIndex, buffer)\<close>, on a buffer of exactly \<open>SectorSize\<close> bytes.
\<close>

definition ReadSector :: "disk \<Rightarrow> int \<Rightarrow> byte list" where
  "ReadSector d sector = d sector"

text \<open>
  Modelled from the spec: \<^verbatim>\<open>WriteSector\<close> is absent; it is the spec's blocking
  \<open>writeSector(sectorIndex, buffer)\<close>, on a buffer of exactly \<open>SectorSize\<close> bytes.
\<close>

definition WriteSector :: "disk \<Rightarrow> int \<Rightarrow> byte list \<Rightarrow> disk" where
  "WriteSector d sector buf = d(sector := buf)"

text \<open>
  The four \<^verbatim>\<open>memcpy\<close> calls of \<^verbatim>\<open>WriteBack\<close>, at the offsets \<open>0\<close>, \<open>4\<close>, \<open>8\<close> and
  \<open>8 + 4 * NumDirect\<close> the running \<^verbatim>\<open>offset\<close> takes.
\<close>

definition pack :: "params \<Rightarrow> byte list \<Rightarrow> hdr \<Rightarrow> error + byte list" where
  "pack c buf h =
     (case put_bytes buf 0 (enc32 (numBytes h)) of
        Inl e \<Rightarrow> Inl e
      | Inr b1 \<Rightarrow>
     (case put_bytes b1 4 (enc32 (numSectors h)) of
        Inl e \<Rightarrow> Inl e
      | Inr b2 \<Rightarrow>
     (case put_bytes b2 8 (concat (map enc32 (take (nat (NumDirect c)) (dataSectors h)))) of
        Inl e \<Rightarrow> Inl e
      | Inr b3 \<Rightarrow>
          put_bytes b3 (8 + 4 * nat (NumDirect c)) (enc32 (nextHeaderSector h)))))"

text \<open>
  \<^verbatim>\<open>char buf[SectorSize]\<close> of \<^verbatim>\<open>WriteBack\<close> is not initialised: \<open>junk sector\<close> gives
  the bytes it holds in the call that writes \<open>sector\<close>.
\<close>

fun WriteBack :: "params \<Rightarrow> (int \<Rightarrow> nat \<Rightarrow> byte) \<Rightarrow> disk \<Rightarrow> hdr \<Rightarrow> int \<Rightarrow> error + disk" where
  "WriteBack c junk d (Hdr nb ns ds nxt nxs) sector =
     (case pack c (map (junk sector) [0 ..< nat (SectorSize c)]) (Hdr nb ns ds nxt nxs) of
        Inl e \<Rightarrow> Inl e
      | Inr buf \<Rightarrow>
          (let d' = WriteSector d sector buf
           in if nxs \<noteq> - 1 then
                (case nxt of
                   Null \<Rightarrow> Inl NullDeref
                 | Live n \<Rightarrow> WriteBack c junk d' n nxs
                 | Dangling \<Rightarrow> Inl UseAfterFree)
              else Inr d'))"

text \<open>
  The four \<^verbatim>\<open>memcpy\<close> calls of \<^verbatim>\<open>FetchFrom\<close>; the result is \<open>numBytes\<close>,
  \<open>numSectors\<close>, \<open>dataSectors\<close> and \<open>nextHeaderSector\<close>.
\<close>

definition unpack :: "params \<Rightarrow> byte list \<Rightarrow> error + (int \<times> int \<times> int list \<times> int)" where
  "unpack c buf =
     (case get_bytes buf 0 4 of
        Inl e \<Rightarrow> Inl e
      | Inr a \<Rightarrow>
     (case get_bytes buf 4 4 of
        Inl e \<Rightarrow> Inl e
      | Inr b \<Rightarrow>
     (case get_bytes buf 8 (4 * nat (NumDirect c)) of
        Inl e \<Rightarrow> Inl e
      | Inr t \<Rightarrow>
     (case get_bytes buf (8 + 4 * nat (NumDirect c)) 4 of
        Inl e \<Rightarrow> Inl e
      | Inr z \<Rightarrow> Inr (dec32 a, dec32 b, map dec32 (chunks4 t), dec32 z)))))"

text \<open>
  \<^verbatim>\<open>FetchFrom\<close> reads the sector into \<^verbatim>\<open>char buf[SectorSize]\<close>. It follows the links
  stored on the disk, which may form a cycle: the first argument bounds the depth of the
  recursion, and \<open>None\<close> is a call that has not returned within it.
\<close>

fun FetchFrom :: "nat \<Rightarrow> params \<Rightarrow> disk \<Rightarrow> hdr \<Rightarrow> int \<Rightarrow> (error + hdr) option" where
  "FetchFrom 0 c d h sector = None"
| "FetchFrom (Suc fuel) c d h sector =
     (case unpack c (take (nat (SectorSize c)) (ReadSector d sector)) of
        Inl e \<Rightarrow> Some (Inl e)
      | Inr (nb, ns, ds, nxs) \<Rightarrow>
          if nxs \<noteq> - 1 then
            (case FetchFrom fuel c d (FileHeader c) nxs of
               None \<Rightarrow> None
             | Some (Inl e) \<Rightarrow> Some (Inl e)
             | Some (Inr n) \<Rightarrow> Some (Inr (Hdr nb ns ds (Live n) nxs)))
          else Some (Inr (Hdr nb ns ds (nextHeader h) nxs)))"

subsection \<open>The chain of a header\<close>

text \<open>The nodes reached from a header through live \<^verbatim>\<open>nextHeader\<close> pointers, in order.\<close>

fun chain :: "hdr \<Rightarrow> hdr list" where
  "chain (Hdr nb ns ds Null nxs) = [Hdr nb ns ds Null nxs]"
| "chain (Hdr nb ns ds (Live n) nxs) = Hdr nb ns ds (Live n) nxs # chain n"
| "chain (Hdr nb ns ds Dangling nxs) = [Hdr nb ns ds Dangling nxs]"

text \<open>
  A chain without a dangling pointer whose tables all have \<open>NumDirect\<close> entries.
\<close>

fun ok_chain :: "params \<Rightarrow> hdr \<Rightarrow> bool" where
  "ok_chain c (Hdr nb ns ds Null nxs) = (length ds = nat (NumDirect c))"
| "ok_chain c (Hdr nb ns ds (Live n) nxs) = (length ds = nat (NumDirect c) \<and> ok_chain c n)"
| "ok_chain c (Hdr nb ns ds Dangling nxs) = False"

text \<open>
  The sectors a chain refers to: the first \<open>numSectors\<close> entries of each node's table,
  and the sectors of the continuation headers.
\<close>

definition own_sectors :: "hdr \<Rightarrow> int list" where
  "own_sectors h = take (nat (numSectors h)) (dataSectors h)"

definition data_sectors :: "hdr \<Rightarrow> int list" where
  "data_sectors h = concat (map own_sectors (chain h))"

definition link_sectors :: "hdr \<Rightarrow> int list" where
  "link_sectors h = map nextHeaderSector (butlast (chain h))"

text \<open>
  A chain without a dangling pointer in which every \<open>numSectors\<close> is at most the size of
  the table.
\<close>

fun tables_ok :: "hdr \<Rightarrow> bool" where
  "tables_ok (Hdr nb ns ds Null nxs) = (ns \<le> int (length ds))"
| "tables_ok (Hdr nb ns ds (Live n) nxs) = (ns \<le> int (length ds) \<and> tables_ok n)"
| "tables_ok (Hdr nb ns ds Dangling nxs) = False"

text \<open>
  The values of a C \<^verbatim>\<open>int\<close>, and a populated chain: \<^verbatim>\<open>int\<close> values in every field,
  a table of \<open>NumDirect\<close> entries in every node, and a live continuation exactly where
  \<^verbatim>\<open>nextHeaderSector\<close> is not \<open>-1\<close>.
\<close>

definition int32 :: "int \<Rightarrow> bool" where
  "int32 x \<longleftrightarrow> - (2 ^ 31) \<le> x \<and> x < 2 ^ 31"

fun populated :: "params \<Rightarrow> hdr \<Rightarrow> bool" where
  "populated c (Hdr nb ns ds Null nxs) =
     (length ds = nat (NumDirect c) \<and> nxs = - 1 \<and> int32 nb \<and> int32 ns \<and> list_all int32 ds)"
| "populated c (Hdr nb ns ds (Live n) nxs) =
     (length ds = nat (NumDirect c) \<and> nxs \<noteq> - 1 \<and> int32 nxs \<and> int32 nb \<and> int32 ns \<and>
      list_all int32 ds \<and> populated c n)"
| "populated c (Hdr nb ns ds Dangling nxs) = False"

text \<open>
  Two chains used as examples: what \<open>Allocate\<close> builds for 5000 bytes on an empty map of
  41 sectors, and for 100 bytes on an empty map of one sector, with \<open>SectorSize = 128\<close>
  and \<open>NumDirect = 30\<close>.
\<close>

definition two_nodes :: hdr where
  "two_nodes =
     Hdr 3840 30 (map int [0..<30])
       (Live (Hdr 1160 10 (map int [31..<41] @ replicate 20 (- 1)) Null (- 1))) 30"

definition one_node :: hdr where
  "one_node = Hdr 100 1 (0 # replicate 29 (- 1)) Null (- 1)"

text \<open>
  The header \<open>Allocate\<close> leaves behind for 3841 bytes on an empty map of 30 sectors.
\<close>

definition out_of_sectors :: hdr where
  "out_of_sectors = Hdr 3840 30 (map int [0..<30]) Dangling (- 1)"

text \<open>A node that lists sector 5 twice.\<close>

definition twice :: hdr where
  "twice = Hdr 256 2 (5 # 5 # replicate 28 (- 1)) Null (- 1)"

text \<open>
  Constants for which the record fits the sector, and the chain \<open>Allocate\<close> builds with
  them for 5000 bytes on a map of 42 sectors whose sector 0 is in use.
\<close>

definition fitting :: params where
  "fitting = \<lparr>SectorSize = 128, NumDirect = 29\<rparr>"

definition stored :: hdr where
  "stored =
     Hdr 3712 29 (map int [1..<30])
       (Live (Hdr 1288 11 (map int [31..<42] @ replicate 18 (- 1)) Null (- 1))) 30"

text \<open>
  A buffer that holds zeros before \<open>WriteBack\<close> fills it, and a disk on which nothing has
  been written.
\<close>

definition zeroed :: "int \<Rightarrow> nat \<Rightarrow> byte" where
  "zeroed sector i = 0"

definition blank :: disk where
  "blank sector = []"

section \<open>Properties\<close>

subsection \<open>Arithmetic\<close>

lemma div_sub_mult: "0 < (b::int) \<Longrightarrow> (a - k * b) div b = a div b - k"
proof -
  assume "0 < b"
  have "(a - k * b) div b = (a + (- k) * b) div b" by simp
  also have "\<dots> = a div b - k" using \<open>0 < b\<close> by (subst div_mult_self1) auto
  finally show ?thesis .
qed

lemma divRoundUp_sub_mult: "0 < s \<Longrightarrow> divRoundUp (n - k * s) s = divRoundUp n s - k"
  using div_sub_mult [of s "n + s - 1" k] by (simp add: divRoundUp_def algebra_simps)

lemma divRoundUp_small: "0 < n \<Longrightarrow> n \<le> s \<Longrightarrow> divRoundUp n s = 1"
proof -
  assume a: "0 < n" "n \<le> s"
  have "(n + s - 1) div s = ((n - 1) + 1 * s) div s" by (simp add: algebra_simps)
  also have "\<dots> = (n - 1) div s + 1" using a by (subst div_mult_self1) auto
  also have "(n - 1) div s = 0" using a by (intro div_pos_pos_trivial) auto
  finally show ?thesis by (simp add: divRoundUp_def)
qed

lemma divRoundUp_covers: "0 < s \<Longrightarrow> n \<le> divRoundUp n s * s"
proof -
  assume s: "0 < s"
  have "n + s - 1 = (n + s - 1) div s * s + (n + s - 1) mod s" by simp
  moreover have "(n + s - 1) mod s \<le> s - 1" using s
    by (smt (verit) pos_mod_bound)
  ultimately show ?thesis unfolding divRoundUp_def by linarith
qed

lemma divRoundUp_nonneg: "0 < s \<Longrightarrow> 0 \<le> n \<Longrightarrow> 0 \<le> divRoundUp n s"
  by (simp add: divRoundUp_def pos_imp_zdiv_nonneg_iff)

lemma mult_le_imp_le_div: "0 < (s::int) \<Longrightarrow> k * s \<le> a \<Longrightarrow> k \<le> a div s"
  using zdiv_mono1 [of "k * s" a s] by simp

lemma div_less_divRoundUp:
  assumes "0 < (s::int)" "a < b"
  shows "a div s < divRoundUp b s"
proof -
  have "a div s \<le> (b - 1) div s" using assms by (intro zdiv_mono1) auto
  also have "\<dots> < (b - 1) div s + 1" by simp
  also have "\<dots> = (b - 1 + 1 * s) div s" using assms(1) by (subst div_mult_self1) auto
  finally show ?thesis by (simp add: divRoundUp_def algebra_simps)
qed

lemma divRoundUp_le:
  assumes "0 < s" "n \<le> k * s"
  shows "divRoundUp n s \<le> k"
proof -
  have "(n + s - 1) div s \<le> ((s - 1) + k * s) div s"
    using assms by (intro zdiv_mono1) auto
  also have "\<dots> = k + (s - 1) div s" using assms(1) by (subst div_mult_self1) auto
  also have "(s - 1) div s = 0" using assms(1) by (intro div_pos_pos_trivial) auto
  finally show ?thesis by (simp add: divRoundUp_def)
qed

lemma div_less_of_less_mult: "0 < (s::int) \<Longrightarrow> a < k * s \<Longrightarrow> a div s < k"
proof -
  assume s: "0 < s" and a: "a < k * s"
  from a have "a - k * s < 0" by simp
  with s have "(a - k * s) div s < 0" by (simp add: pos_imp_zdiv_neg_iff)
  with s show ?thesis by (simp add: div_sub_mult)
qed

lemma divRoundUp_pred:
  assumes "0 < s"
  shows "divRoundUp n s = (n - 1) div s + 1"
proof -
  have "(n + s - 1) div s = ((n - 1) + 1 * s) div s" by (simp add: algebra_simps)
  also have "\<dots> = (n - 1) div s + 1" using assms by (subst div_mult_self1) auto
  finally show ?thesis by (simp add: divRoundUp_def)
qed

lemma last_sector_index:
  assumes "0 < s" "n \<le> a" "a < divRoundUp n s * s"
  shows "a div s = (n - 1) div s"
proof -
  from div_less_of_less_mult [OF assms(1,3)] have "a div s < (n - 1) div s + 1"
    by (simp add: divRoundUp_pred [OF assms(1)])
  moreover have "(n - 1) div s \<le> a div s" using assms(1,2) by (intro zdiv_mono1) auto
  ultimately show ?thesis by simp
qed

lemma divRoundUp_full: "0 < s \<Longrightarrow> divRoundUp (k * s) s = k"
proof -
  assume s: "0 < s"
  have "(k * s + s - 1) div s = ((s - 1) + k * s) div s" by (simp add: algebra_simps)
  also have "\<dots> = k + (s - 1) div s" using s by (subst div_mult_self1) auto
  also have "(s - 1) div s = 0" using s by (intro div_pos_pos_trivial) auto
  finally show ?thesis by (simp add: divRoundUp_def)
qed

lemma MaxFileSize_pos: "0 < SectorSize c \<Longrightarrow> 0 < NumDirect c \<Longrightarrow> 0 < MaxFileSize c"
  by (simp add: MaxFileSize_def)

lemma split_offset:
  assumes "0 < SectorSize c" "0 \<le> NumDirect c"
  shows "x div MaxFileSize c = x div SectorSize c div NumDirect c"
    and "x mod MaxFileSize c div SectorSize c = x div SectorSize c mod NumDirect c"
proof -
  let ?s = "SectorSize c" and ?n = "NumDirect c"
  have M: "MaxFileSize c = ?s * ?n" by (simp add: MaxFileSize_def)
  show "x div MaxFileSize c = x div ?s div ?n"
    unfolding M using assms(2) by (rule zdiv_zmult2_eq)
  have "x mod (?s * ?n) = (x mod ?s) + (x div ?s mod ?n) * ?s"
    using zmod_zmult2_eq [OF assms(2), of x ?s] by (simp add: algebra_simps)
  then have "x mod (?s * ?n) div ?s = (x div ?s mod ?n) + (x mod ?s) div ?s"
    using assms(1) by (simp only: div_mult_self1)
  also have "(x mod ?s) div ?s = 0"
    using assms(1) by (intro div_pos_pos_trivial) simp_all
  finally show "x mod MaxFileSize c div ?s = x div ?s mod ?n" unfolding M by simp
qed

lemma c_div_nonneg: "0 \<le> a \<Longrightarrow> 0 < b \<Longrightarrow> c_div a b = a div b"
  by (cases "a = 0") (auto simp: c_div_def)

lemma idx_less_iff:
  assumes "0 < SectorSize c"
  shows "off div SectorSize c < NumDirect c \<longleftrightarrow> off < MaxFileSize c"
proof -
  have "off div SectorSize c < NumDirect c \<longleftrightarrow> (off - NumDirect c * SectorSize c) div SectorSize c < 0"
    using assms by (simp add: div_sub_mult)
  also have "\<dots> \<longleftrightarrow> off - NumDirect c * SectorSize c < 0"
    using assms by (rule pos_imp_zdiv_neg_iff)
  finally show ?thesis by (simp add: MaxFileSize_def)
qed

lemma below_MaxFileSize:
  assumes "0 \<le> off" "off < MaxFileSize c"
  shows "off div MaxFileSize c = 0" "off mod MaxFileSize c = off"
  using assms by (simp_all add: div_pos_pos_trivial)

lemma above_MaxFileSize:
  assumes "0 < MaxFileSize c" "MaxFileSize c \<le> off"
  shows "nat (off div MaxFileSize c) = Suc (nat ((off - MaxFileSize c) div MaxFileSize c))"
    "(off - MaxFileSize c) mod MaxFileSize c = off mod MaxFileSize c"
proof -
  have d: "(off - MaxFileSize c) div MaxFileSize c = off div MaxFileSize c - 1"
    using div_sub_mult [OF assms(1), of off 1] by simp
  have "0 \<le> (off - MaxFileSize c) div MaxFileSize c"
    using assms by (simp add: pos_imp_zdiv_nonneg_iff)
  with d show "nat (off div MaxFileSize c) = Suc (nat ((off - MaxFileSize c) div MaxFileSize c))"
    by simp
  show "(off - MaxFileSize c) mod MaxFileSize c = off mod MaxFileSize c"
    by simp
qed

subsection \<open>The Free-Space Map\<close>

lemma FindAndSet_some:
  "0 < NumClear m \<Longrightarrow> \<exists>s m'. FindAndSet m = (s, m') \<and> 0 \<le> s"
  by (cases "find_clear m") (auto simp: FindAndSet_def NumClear_zero [symmetric])

lemma Clear_marked:
  "Test m s \<Longrightarrow> length (Clear m s) = length m \<and> marked (Clear m s) = marked m - {s}"
  by (auto simp: Clear_def Test_def marked_def nth_list_update)

lemma bitmap_eqI:
  assumes "length a = length b" "marked a = marked b"
  shows "a = b"
proof (rule nth_equalityI)
  show "length a = length b" by fact
next
  fix i assume i: "i < length a"
  then have "a ! i \<longleftrightarrow> int i \<in> marked a" by (simp add: marked_def Test_def)
  also have "\<dots> \<longleftrightarrow> b ! i" using i assms by (simp add: marked_def Test_def)
  finally show "a ! i = b ! i" .
qed

lemma marked_bound: "s \<in> marked m \<Longrightarrow> 0 \<le> s \<and> s < int (length m)"
  by (auto simp: marked_def Test_def)

lemma NumClear_le_length: "NumClear m \<le> int (length m)"
  by (simp add: NumClear_def)

subsection \<open>The chain of a header\<close>

lemma chain_nonempty: "chain h \<noteq> []"
  by (cases h rule: chain.cases) auto

lemma data_sectors_simps:
  "data_sectors (Hdr nb ns ds Null nxs) = take (nat ns) ds"
  "data_sectors (Hdr nb ns ds (Live n) nxs) = take (nat ns) ds @ data_sectors n"
  "link_sectors (Hdr nb ns ds Null nxs) = []"
  "link_sectors (Hdr nb ns ds (Live n) nxs) = nxs # link_sectors n"
  by (simp_all add: data_sectors_def link_sectors_def own_sectors_def chain_nonempty)

lemma ok_chain_nodes: "ok_chain c h \<Longrightarrow> \<forall>n \<in> set (chain h). length (dataSectors n) = nat (NumDirect c)"
  by (induction h rule: chain.induct) auto

subsection \<open>The allocation loop\<close>

lemma alloc_loop_result:
  "alloc_loop m ds i n = Inr (m', ds') \<Longrightarrow>
     length ds' = length ds \<and> length m' = length m \<and>
     take i ds' = take i ds \<and> drop (max i (nat n)) ds' = drop (max i (nat n)) ds \<and>
     distinct (drop i (take (nat n) ds')) \<and>
     set (drop i (take (nat n) ds')) \<inter> marked m = {} \<and>
     marked m' = marked m \<union> set (drop i (take (nat n) ds')) \<and>
     (\<forall>s \<in> set (drop i (take (nat n) ds')). 0 \<le> s)"
proof (induction m ds i n arbitrary: m' ds' rule: alloc_loop.induct)
  case (1 m ds i n)
  show ?case
  proof (cases "int i < n")
    case False
    then have "nat n \<le> i" by simp
    with False "1.prems" show ?thesis by (simp add: alloc_loop.simps [of m ds i n] max_def)
  next
    case True
    obtain s m1 where f: "FindAndSet m = (s, m1)" by (cases "FindAndSet m")
    from True f "1.prems" have c: "i < length ds" "0 \<le> s"
      and r: "alloc_loop m1 (ds[i := s]) (Suc i) n = Inr (m', ds')"
      by (auto simp: alloc_loop.simps [of m ds i n] split: if_splits)
    note IH = "1.IH" [OF True f [symmetric] c r]
    note F = FindAndSet_ok [OF f c(2)]
    from True have in': "i < nat n" "max i (nat n) = nat n" "max (Suc i) (nat n) = nat n" by auto
    from IH have len: "length ds' = length ds" "length m' = length m1" by auto
    from IH have tk: "take (Suc i) ds' = take (Suc i) (ds[i := s])" by blast
    then have "take (Suc i) ds' ! i = take (Suc i) (ds[i := s]) ! i" by simp
    with c len have at: "ds' ! i = s" by simp
    from tk have "take i (take (Suc i) ds') = take i (take (Suc i) (ds[i := s]))" by simp
    then have tk': "take i ds' = take i ds" by (simp add: min_def)
    have sub: "drop i (take (nat n) ds') = s # drop (Suc i) (take (nat n) ds')"
      using in' c len at by (simp add: Cons_nth_drop_Suc [symmetric])
    from IH have d: "distinct (drop (Suc i) (take (nat n) ds'))"
      and dj: "set (drop (Suc i) (take (nat n) ds')) \<inter> marked m1 = {}"
      and mk: "marked m' = marked m1 \<union> set (drop (Suc i) (take (nat n) ds'))"
      and nn: "\<forall>s \<in> set (drop (Suc i) (take (nat n) ds')). 0 \<le> s"
      and dr: "drop (nat n) ds' = drop (nat n) (ds[i := s])"
      by (simp_all add: in')
    from dr in' have dr': "drop (nat n) ds' = drop (nat n) ds" by simp
    from F(1) have sm: "s \<notin> marked m" by (simp add: marked_def)
    show ?thesis
      unfolding sub in'(2)
      using len F(2) tk' dr' d dj mk nn sm F(4) c(2) by auto
  qed
qed


lemma alloc_loop_in_bounds:
  "alloc_loop m ds i n = Inr (m', ds') \<Longrightarrow> n \<le> int (length ds) \<or> n \<le> int i"
proof (induction m ds i n arbitrary: m' ds' rule: alloc_loop.induct)
  case (1 m ds i n)
  show ?case
  proof (cases "int i < n")
    case False
    then show ?thesis by simp
  next
    case True
    obtain s m1 where f: "FindAndSet m = (s, m1)" by (cases "FindAndSet m")
    from True f "1.prems" have c: "i < length ds" "0 \<le> s"
      and r: "alloc_loop m1 (ds[i := s]) (Suc i) n = Inr (m', ds')"
      by (auto simp: alloc_loop.simps [of m ds i n] split: if_splits)
    from "1.IH" [OF True f [symmetric] c r] c(1) show ?thesis by auto
  qed
qed

lemma alloc_loop_returns:
  "n - int i \<le> NumClear m \<Longrightarrow> n \<le> int (length ds) \<Longrightarrow>
   \<exists>m' ds'. alloc_loop m ds i n = Inr (m', ds')"
proof (induction m ds i n rule: alloc_loop.induct)
  case (1 m ds i n)
  show ?case
  proof (cases "int i < n")
    case False
    then show ?thesis by (simp add: alloc_loop.simps [of m ds i n])
  next
    case True
    with "1.prems" have "0 < NumClear m" by simp
    from FindAndSet_some [OF this] obtain s m1 where f: "FindAndSet m = (s, m1)" "0 \<le> s"
      by blast
    from True "1.prems" have b: "i < length ds" by simp
    from FindAndSet_ok(3) [OF f] "1.prems"(1) have "n - int (Suc i) \<le> NumClear m1" by simp
    from "1.IH" [OF True f(1) [symmetric] b f(2) this] "1.prems"(2)
    obtain m' ds' where "alloc_loop m1 (ds[i := s]) (Suc i) n = Inr (m', ds')" by auto
    with True f b show ?thesis by (simp add: alloc_loop.simps [of m ds i n])
  qed
qed

lemma alloc_loop_int32:
  assumes l: "alloc_loop m (replicate k (- 1)) 0 n = Inr (m', ds)"
    and small: "int (length m) < 2 ^ 31"
  shows "length ds = k \<and> list_all int32 ds"
proof -
  note R = alloc_loop_result [OF l]
  from R have len: "length ds = k" "length m' = length m" by simp_all
  from R have mk: "set (take (nat n) ds) \<subseteq> marked m'" by simp
  from R have dr: "drop (nat n) ds = drop (nat n) (replicate k (- 1))" by (simp add: max_def)
  have "int32 x" if "x \<in> set (take (nat n) ds)" for x
    using marked_bound [of x m'] mk that small len(2) by (auto simp: int32_def)
  then have 1: "list_all int32 (take (nat n) ds)" by (simp add: list_all_iff)
  have 2: "list_all int32 (drop (nat n) ds)"
    unfolding dr by (simp add: list_all_iff int32_def)
  have "list_all int32 (take (nat n) ds @ drop (nat n) ds)"
    using 1 2 by (simp only: list_all_append)
  with len show ?thesis by simp
qed

subsection \<open>The outcomes of Allocate\<close>

lemma Allocate_True_cases:
  assumes "Allocate c m h f = Inr (m', h', True)"
  obtains
    (last) ds where "f \<le> MaxFileSize c"
      "alloc_loop m (dataSectors h) 0 (divRoundUp f (SectorSize c)) = Inr (m', ds)"
      "h' = Hdr f (divRoundUp f (SectorSize c)) ds (nextHeader h) (nextHeaderSector h)"
      "divRoundUp f (SectorSize c) \<le> NumClear m"
  | (more) m1 ds s m2 nxt where "MaxFileSize c < f"
      "alloc_loop m (dataSectors h) 0 (divRoundUp (MaxFileSize c) (SectorSize c)) = Inr (m1, ds)"
      "FindAndSet m1 = (s, m2)" "0 \<le> s"
      "Allocate c m2 (FileHeader c) (f - MaxFileSize c) = Inr (m', nxt, True)"
      "h' = Hdr (MaxFileSize c) (divRoundUp (MaxFileSize c) (SectorSize c)) ds (Live nxt) s"
      "divRoundUp (MaxFileSize c) (SectorSize c) \<le> NumClear m"
proof (cases "0 < f - MaxFileSize c")
  case False
  with assms obtain ds where
    "alloc_loop m (dataSectors h) 0 (divRoundUp f (SectorSize c)) = Inr (m', ds)"
    "h' = Hdr f (divRoundUp f (SectorSize c)) ds (nextHeader h) (nextHeaderSector h)"
    "divRoundUp f (SectorSize c) \<le> NumClear m"
    by (auto simp: Allocate.simps [of c m h f] Let_def split: if_splits sum.splits prod.splits)
  with False show ?thesis by (intro last) auto
next
  case True
  with assms obtain m1 ds s m2 nxt where
    "alloc_loop m (dataSectors h) 0 (divRoundUp (MaxFileSize c) (SectorSize c)) = Inr (m1, ds)"
      "FindAndSet m1 = (s, m2)" "s \<noteq> - 1"
      "Allocate c m2 (FileHeader c) (f - MaxFileSize c) = Inr (m', nxt, True)"
      "h' = Hdr (MaxFileSize c) (divRoundUp (MaxFileSize c) (SectorSize c)) ds (Live nxt) s"
      "divRoundUp (MaxFileSize c) (SectorSize c) \<le> NumClear m"
    by (auto simp: Allocate.simps [of c m h f] Let_def split: if_splits sum.splits prod.splits)
  moreover from this have "0 \<le> s" using FindAndSet_fail [of m1 s m2] by fastforce
  ultimately show ?thesis using True by (intro more) auto
qed

lemma Allocate_shape:
  assumes "0 < SectorSize c" "0 < NumDirect c"
  shows "0 \<le> f \<Longrightarrow> nextHeader h = Null \<Longrightarrow> Allocate c m h f = Inr (m', h', True) \<Longrightarrow>
    snd (FileLength h') = Inr f \<and>
    int (length (chain h')) = (if f = 0 then 1 else divRoundUp f (MaxFileSize c)) \<and>
    (\<forall>n \<in> set (butlast (chain h')). numBytes n = MaxFileSize c) \<and>
    (\<forall>n \<in> set (chain h'). numSectors n = divRoundUp (numBytes n) (SectorSize c))"
proof (induction "nat f" arbitrary: f m h m' h' rule: less_induct)
  case less
  note M = MaxFileSize_pos [OF assms]
  from less.prems(3) show ?case
  proof (cases rule: Allocate_True_cases)
    case (last ds)
    show ?thesis
    proof (cases "f = 0")
      case True
      with last less.prems show ?thesis by simp
    next
      case False
      with less.prems last have "divRoundUp f (MaxFileSize c) = 1"
        by (intro divRoundUp_small) auto
      with False last less.prems show ?thesis by simp
    qed
  next
    case (more m1 ds s m2 nxt)
    have r: "0 \<le> f - MaxFileSize c" "nat (f - MaxFileSize c) < nat f"
      using more(1) M by auto
    have "nextHeader (FileHeader c) = Null" by (simp add: FileHeader_def)
    note IH = less.hyps [OF r(2) r(1) this more(5)]
    have nz: "f - MaxFileSize c \<noteq> 0" "f \<noteq> 0" using more(1) M by auto
    have len: "int (length (chain nxt)) = divRoundUp f (MaxFileSize c) - 1"
      using IH nz divRoundUp_sub_mult [OF M, of f 1] by simp
    have ne: "chain nxt \<noteq> []" by (cases nxt rule: chain.cases) auto
    show ?thesis
      using IH more(6) len nz ne by (auto split: prod.splits sum.splits)
  qed
qed

lemma Allocate_ok_chain:
  "nextHeader h = Null \<Longrightarrow> length (dataSectors h) = nat (NumDirect c) \<Longrightarrow>
   Allocate c m h f = Inr (m', h', True) \<Longrightarrow> ok_chain c h'"
proof (induction "nat (NumClear m)" arbitrary: f m h m' h' rule: less_induct)
  case less
  from less.prems(3) show ?case
  proof (cases rule: Allocate_True_cases)
    case (last ds)
    with less.prems alloc_loop_result [OF last(2)] show ?thesis by simp
  next
    case (more m1 ds s m2 nxt)
    from alloc_loop_NumClear [OF more(2)] FindAndSet_ok(3) [OF more(3,4)] NumClear_nonneg [of m2]
    have "nat (NumClear m2) < nat (NumClear m)" by simp
    from less.hyps [OF this _ _ more(5)] have "ok_chain c nxt" by (simp add: FileHeader_def)
    with more(6) less.prems alloc_loop_result [OF more(2)] show ?thesis by simp
  qed
qed

text \<open>
  On a header with a table of \<open>NumDirect\<close> entries \<open>Allocate\<close> always returns: after the
  capacity check the assertion of the loop cannot fail, and the loop stays inside the
  table.
\<close>

lemma Allocate_returns:
  assumes "0 < SectorSize c" "0 \<le> NumDirect c"
  shows "length (dataSectors h) = nat (NumDirect c) \<Longrightarrow>
    \<exists>m' h' ok. Allocate c m h f = Inr (m', h', ok)"
proof (induction "nat (NumClear m)" arbitrary: f m h rule: less_induct)
  case less
  let ?nb = "if 0 < f - MaxFileSize c then MaxFileSize c else f"
  let ?ns = "divRoundUp ?nb (SectorSize c)"
  show ?case
  proof (cases "NumClear m < ?ns")
    case True
    then show ?thesis by (auto simp: Allocate.simps [of c m h f] Let_def)
  next
    case False
    have "?nb \<le> NumDirect c * SectorSize c" by (simp add: MaxFileSize_def)
    from divRoundUp_le [OF assms(1) this] assms(2) less.prems
    have "?ns \<le> int (length (dataSectors h))" by simp
    with False alloc_loop_returns [of ?ns 0 m "dataSectors h"]
    obtain m1 ds where l: "alloc_loop m (dataSectors h) 0 ?ns = Inr (m1, ds)" by auto
    show ?thesis
    proof (cases "0 < f - MaxFileSize c")
      case no: False
      with False l show ?thesis by (auto simp: Allocate.simps [of c m h f] Let_def)
    next
      case yes: True
      obtain s m2 where fs: "FindAndSet m1 = (s, m2)" by (cases "FindAndSet m1")
      show ?thesis
      proof (cases "s = - 1")
        case True
        with False l yes fs show ?thesis by (auto simp: Allocate.simps [of c m h f] Let_def)
      next
        case ns: False
        with FindAndSet_fail [OF fs] have p: "0 \<le> s" by fastforce
        from alloc_loop_NumClear [OF l] FindAndSet_ok(3) [OF fs p] NumClear_nonneg [of m2]
        have "nat (NumClear m2) < nat (NumClear m)" by simp
        from less.hyps [OF this, of "FileHeader c" "f - MaxFileSize c"] assms(2)
        obtain m' nxt ok where "Allocate c m2 (FileHeader c) (f - MaxFileSize c) = Inr (m', nxt, ok)"
          by (auto simp: FileHeader_def)
        with False l yes fs ns show ?thesis
          by (auto simp: Allocate.simps [of c m h f] Let_def)
      qed
    qed
  qed
qed


lemma Allocate_effect:
  "nextHeader h = Null \<Longrightarrow> Allocate c m h f = Inr (m', h', True) \<Longrightarrow>
     tables_ok h' \<and> length m' = length m \<and>
     distinct (data_sectors h' @ link_sectors h') \<and>
     set (data_sectors h' @ link_sectors h') \<inter> marked m = {} \<and>
     marked m' = marked m \<union> set (data_sectors h') \<union> set (link_sectors h')"
proof (induction "nat (NumClear m)" arbitrary: f m h m' h' rule: less_induct)
  case less
  from less.prems(2) show ?case
  proof (cases rule: Allocate_True_cases)
    case (last ds)
    from alloc_loop_result [OF last(2)] alloc_loop_in_bounds [OF last(2)]
    show ?thesis using last(3) less.prems(1) by (auto simp: data_sectors_simps)
  next
    case (more m1 ds s m2 nxt)
    let ?own = "take (nat (divRoundUp (MaxFileSize c) (SectorSize c))) ds"
    from alloc_loop_result [OF more(2)] alloc_loop_in_bounds [OF more(2)]
    have L: "divRoundUp (MaxFileSize c) (SectorSize c) \<le> int (length ds)"
      "length m1 = length m" "distinct ?own" "set ?own \<inter> marked m = {}"
      "marked m1 = marked m \<union> set ?own"
      by auto
    note F = FindAndSet_ok [OF more(3,4)]
    from alloc_loop_NumClear [OF more(2)] F(3) NumClear_nonneg [of m2]
    have "nat (NumClear m2) < nat (NumClear m)" by simp
    from less.hyps [OF this _ more(5)]
    have IH: "tables_ok nxt" "length m' = length m2"
      "distinct (data_sectors nxt @ link_sectors nxt)"
      "set (data_sectors nxt @ link_sectors nxt) \<inter> marked m2 = {}"
      "marked m' = marked m2 \<union> set (data_sectors nxt) \<union> set (link_sectors nxt)"
      by (simp_all add: FileHeader_def)
    from F(1) have sm: "s \<notin> marked m1" by (simp add: marked_def)
    have h': "data_sectors h' = ?own @ data_sectors nxt" "link_sectors h' = s # link_sectors nxt"
      "tables_ok h'"
      using more(6) L(1) IH(1) by (simp_all add: data_sectors_simps)
    have 1: "length m' = length m" using IH(2) F(2) L(2) by simp
    have 2: "marked m' = marked m \<union> set (data_sectors h') \<union> set (link_sectors h')"
      unfolding h' IH(5) F(4) L(5) by auto
    have 3: "set (data_sectors h' @ link_sectors h') \<inter> marked m = {}"
      unfolding h' using IH(4) F(4) L(4,5) sm by auto
    have 4: "distinct (data_sectors h' @ link_sectors h')"
      unfolding h' using IH(3,4) F(4) L(3,5) sm by auto
    from h'(3) 1 2 3 4 show ?thesis by simp
  qed
qed

lemma Allocate_populated:
  assumes "0 < SectorSize c" "0 < NumDirect c"
  shows "0 \<le> f \<Longrightarrow> f < 2 ^ 31 \<Longrightarrow> int (length m) < 2 ^ 31 \<Longrightarrow>
    dataSectors h = replicate (nat (NumDirect c)) (- 1) \<Longrightarrow>
    nextHeader h = Null \<Longrightarrow> nextHeaderSector h = - 1 \<Longrightarrow>
    Allocate c m h f = Inr (m', h', True) \<Longrightarrow> populated c h'"
proof (induction "nat f" arbitrary: f m h m' h' rule: less_induct)
  case less
  note M = MaxFileSize_pos [OF assms]
  from less.prems(7) show ?case
  proof (cases rule: Allocate_True_cases)
    case (last ds)
    let ?ns = "divRoundUp f (SectorSize c)"
    from alloc_loop_int32 [OF last(2) [unfolded less.prems(4)] less.prems(3)]
    have ds: "length ds = nat (NumDirect c)" "list_all int32 ds" by simp_all
    have "0 \<le> ?ns" using assms(1) less.prems(1) by (rule divRoundUp_nonneg)
    moreover have "?ns < 2 ^ 31"
      using last(4) NumClear_le_length [of m] less.prems(3) by linarith
    ultimately have "int32 ?ns" by (simp add: int32_def)
    moreover have "int32 f" using less.prems(1,2) by (simp add: int32_def)
    ultimately show ?thesis using last(3) ds less.prems(5,6) by simp
  next
    case (more m1 ds s m2 nxt)
    let ?ns = "divRoundUp (MaxFileSize c) (SectorSize c)"
    from alloc_loop_int32 [OF more(2) [unfolded less.prems(4)] less.prems(3)]
    have ds: "length ds = nat (NumDirect c)" "list_all int32 ds" by simp_all
    from alloc_loop_result [OF more(2)] have l1: "length m1 = length m" by simp
    note F = FindAndSet_ok [OF more(3,4)]
    have "0 \<le> ?ns" using assms(1) M by (intro divRoundUp_nonneg) auto
    moreover have "?ns < 2 ^ 31"
      using more(7) NumClear_le_length [of m] less.prems(3) by linarith
    ultimately have ns: "int32 ?ns" by (simp add: int32_def)
    have mf: "int32 (MaxFileSize c)" using M more(1) less.prems(2) by (simp add: int32_def)
    have s: "int32 s" "s \<noteq> - 1"
      using more(4) F(5) l1 less.prems(3) by (auto simp: int32_def)
    have r: "0 \<le> f - MaxFileSize c" "nat (f - MaxFileSize c) < nat f" "f - MaxFileSize c < 2 ^ 31"
      using more(1) M less.prems(2) by auto
    have l2: "int (length m2) < 2 ^ 31" using F(2) l1 less.prems(3) by simp
    have "populated c nxt"
      by (rule less.hyps [OF r(2) r(1) r(3) l2 _ _ _ more(5)]) (simp_all add: FileHeader_def)
    with more(6) ds ns mf s show ?thesis by simp
  qed
qed

text \<open>
  The chains a successful \<open>Allocate\<close> builds on a freshly constructed header are populated,
  and their continuation headers lie in sectors that were free, so they meet the
  conditions of the round trip at every root sector that was in use.
\<close>

lemma Allocate_storable:
  assumes "0 < SectorSize c" "0 < NumDirect c" "0 \<le> totalBytes" "totalBytes < 2 ^ 31"
    "int (length freeMap) < 2 ^ 31" "Test freeMap rootSector"
    "Allocate c freeMap (FileHeader c) totalBytes = Inr (freeMap', h, True)"
  shows "populated c h \<and> distinct (rootSector # link_sectors h)"
proof -
  have "populated c h"
    by (rule Allocate_populated [OF assms(1,2,3,4,5) _ _ _ assms(7)]) (simp_all add: FileHeader_def)
  moreover from Allocate_effect [OF _ assms(7)]
  have "distinct (link_sectors h)" "set (link_sectors h) \<inter> marked freeMap = {}"
    by (auto simp: FileHeader_def)
  moreover have "rootSector \<in> marked freeMap" using assms(6) by (simp add: marked_def)
  ultimately show ?thesis by auto
qed

subsection \<open>Deallocate\<close>

lemma dealloc_loop_spec:
  "n \<le> int (length ds) \<Longrightarrow>
   (distinct (drop i (take (nat n) ds)) \<and> set (drop i (take (nat n) ds)) \<subseteq> marked m \<longrightarrow>
      (\<exists>m'. dealloc_loop m ds i n = Inr m' \<and> length m' = length m \<and>
           marked m' = marked m - set (drop i (take (nat n) ds)))) \<and>
   (\<not> (distinct (drop i (take (nat n) ds)) \<and> set (drop i (take (nat n) ds)) \<subseteq> marked m) \<longrightarrow>
      dealloc_loop m ds i n = Inl AssertionFailed)"
proof (induction m ds i n rule: dealloc_loop.induct)
  case (1 m ds i n)
  show ?case
  proof (cases "int i < n")
    case False
    then have "nat n \<le> i" by simp
    then show ?thesis using False by (simp add: dealloc_loop.simps [of m ds i n])
  next
    case True
    with "1.prems" have b: "i < length ds" "i < nat n" by auto
    then have sub: "drop i (take (nat n) ds) = ds ! i # drop (Suc i) (take (nat n) ds)"
      by (simp add: Cons_nth_drop_Suc [symmetric])
    show ?thesis
    proof (cases "Test m (ds ! i)")
      case no: False
      then have "ds ! i \<notin> marked m" by (simp add: marked_def)
      with True b no show ?thesis
        unfolding sub by (simp add: dealloc_loop.simps [of m ds i n])
    next
      case yes: True
      then have in_m: "ds ! i \<in> marked m" by (simp add: marked_def)
      note C = Clear_marked [OF yes]
      note IH = "1.IH" [OF True b(1) yes "1.prems"]
      have eq: "dealloc_loop m ds i n = dealloc_loop (Clear m (ds ! i)) ds (Suc i) n"
        using True b yes by (simp add: dealloc_loop.simps [of m ds i n])
      let ?r = "drop (Suc i) (take (nat n) ds)"
      have cond: "(distinct ?r \<and> set ?r \<subseteq> marked (Clear m (ds ! i))) \<longleftrightarrow>
            (distinct (ds ! i # ?r) \<and> set (ds ! i # ?r) \<subseteq> marked m)"
        using C in_m by auto
      have res: "marked (Clear m (ds ! i)) - set ?r = marked m - set (ds ! i # ?r)"
        using C by auto
      show ?thesis
      proof (cases "distinct ?r \<and> set ?r \<subseteq> marked (Clear m (ds ! i))")
        case ok: True
        with IH obtain m' where "dealloc_loop (Clear m (ds ! i)) ds (Suc i) n = Inr m'"
          "length m' = length (Clear m (ds ! i))"
          "marked m' = marked (Clear m (ds ! i)) - set ?r" by blast
        with ok C show ?thesis unfolding eq sub cond [symmetric] res [symmetric] by simp
      next
        case bad: False
        with IH have "dealloc_loop (Clear m (ds ! i)) ds (Suc i) n = Inl AssertionFailed"
          by blast
        with bad show ?thesis unfolding eq sub cond [symmetric] by simp
      qed
    qed
  qed
qed

lemma Deallocate_spec:
  "tables_ok h \<Longrightarrow>
   (distinct (data_sectors h) \<and> set (data_sectors h) \<subseteq> marked m \<longrightarrow>
      (\<exists>m'. Deallocate m h = Inr m' \<and> length m' = length m \<and>
           marked m' = marked m - set (data_sectors h))) \<and>
   (\<not> (distinct (data_sectors h) \<and> set (data_sectors h) \<subseteq> marked m) \<longrightarrow>
      Deallocate m h = Inl AssertionFailed)"
proof (induction h arbitrary: m rule: chain.induct)
  case (1 nb ns ds nxs)
  then show ?case using dealloc_loop_spec [of ns ds 0 m] by (simp add: data_sectors_simps)
next
  case (2 nb ns ds n nxs)
  then have t: "ns \<le> int (length ds)" "tables_ok n" by simp_all
  note IH = "2.IH" [OF t(2), of m]
  show ?case
  proof (cases "distinct (data_sectors n) \<and> set (data_sectors n) \<subseteq> marked m")
    case False
    with IH have "Deallocate m n = Inl AssertionFailed" by simp
    with False show ?thesis by (auto simp: data_sectors_simps)
  next
    case True
    with IH obtain m1 where m1: "Deallocate m n = Inr m1" "length m1 = length m"
      "marked m1 = marked m - set (data_sectors n)" by auto
    let ?own = "take (nat ns) ds"
    have cond: "(distinct ?own \<and> set ?own \<subseteq> marked m1) \<longleftrightarrow>
        (distinct (?own @ data_sectors n) \<and> set (?own @ data_sectors n) \<subseteq> marked m)"
      using True m1(3) by auto
    have res: "marked m1 - set ?own = marked m - set (?own @ data_sectors n)"
      using m1(3) by auto
    from dealloc_loop_spec [OF t(1), of 0 m1]
    have "(distinct ?own \<and> set ?own \<subseteq> marked m1 \<longrightarrow>
        (\<exists>m'. dealloc_loop m1 ds 0 ns = Inr m' \<and> length m' = length m1 \<and>
           marked m' = marked m1 - set ?own)) \<and>
      (\<not> (distinct ?own \<and> set ?own \<subseteq> marked m1) \<longrightarrow>
        dealloc_loop m1 ds 0 ns = Inl AssertionFailed)" by simp
    then show ?thesis
      unfolding data_sectors_simps cond res using m1(1,2) by simp
  qed
next
  case (3 nb ns ds nxs)
  then show ?case by simp
qed

subsection \<open>FileLength and ByteToSector\<close>

lemma FileLength_frame: "fst (FileLength h) = h"
  by (induction h rule: FileLength.induct) (auto split: prod.splits)

lemma ByteToSector_frame: "fst (ByteToSector c h offset) = h"
  by (induction c h offset rule: ByteToSector.induct) (auto simp: Let_def split: prod.splits)

lemma entry_in_table:
  assumes "0 < SectorSize c" "0 \<le> off" "off < MaxFileSize c" "length ds = nat (NumDirect c)"
  shows "read_entry ds (off div SectorSize c) = Inr (ds ! nat (off div SectorSize c))"
proof -
  have "off div SectorSize c < NumDirect c" using assms by (simp add: idx_less_iff)
  moreover have "0 \<le> off div SectorSize c" using assms by (simp add: pos_imp_zdiv_nonneg_iff)
  ultimately show ?thesis using assms by (simp add: read_entry_def)
qed

lemma ByteToSector_walk:
  assumes "0 < SectorSize c" "0 < NumDirect c"
  shows "ok_chain c h \<Longrightarrow> 0 \<le> off \<Longrightarrow>
    snd (ByteToSector c h off) =
      (if nat (off div MaxFileSize c) < length (chain h)
       then Inr (dataSectors (chain h ! nat (off div MaxFileSize c)) !
                  nat ((off mod MaxFileSize c) div SectorSize c))
       else Inr (- 1))"
proof (induction h arbitrary: off rule: chain.induct)
  case (1 nb ns ds nxs)
  show ?case
  proof (cases "off < MaxFileSize c")
    case True
    with 1 assms show ?thesis
      by (simp add: c_div_nonneg idx_less_iff below_MaxFileSize entry_in_table)
  next
    case False
    with 1 assms above_MaxFileSize(1) [of c off] MaxFileSize_pos [OF assms] show ?thesis
      by (simp add: c_div_nonneg idx_less_iff)
  qed
next
  case (2 nb ns ds n nxs)
  show ?case
  proof (cases "off < MaxFileSize c")
    case True
    with 2 assms show ?thesis
      by (simp add: c_div_nonneg idx_less_iff below_MaxFileSize entry_in_table)
  next
    case False
    then have r: "0 \<le> off - MaxFileSize c" by simp
    from 2 have "ok_chain c n" by simp
    note IH = "2.IH" [OF this r]
    from False above_MaxFileSize [of c off] MaxFileSize_pos [OF assms]
    have s: "nat (off div MaxFileSize c) = Suc (nat ((off - MaxFileSize c) div MaxFileSize c))"
      "(off - MaxFileSize c) mod MaxFileSize c = off mod MaxFileSize c" by auto
    obtain n' r' where b: "ByteToSector c n (off - MaxFileSize c) = (n', r')"
      by (cases "ByteToSector c n (off - MaxFileSize c)")
    from IH b have "r' =
      (if nat ((off - MaxFileSize c) div MaxFileSize c) < length (chain n)
       then Inr (dataSectors (chain n ! nat ((off - MaxFileSize c) div MaxFileSize c)) !
                  nat ((off mod MaxFileSize c) div SectorSize c))
       else Inr (- 1))" by (simp add: s(2))
    with False "2.prems" assms b show ?thesis
      by (simp add: c_div_nonneg idx_less_iff s(1))
  qed
next
  case (3 nb ns ds nxs)
  then show ?case by simp
qed

lemma same_sector:
  assumes "0 < SectorSize c" "0 < NumDirect c" "ok_chain c h" "0 \<le> a" "0 \<le> b"
    "a div SectorSize c = b div SectorSize c"
  shows "snd (ByteToSector c h a) = snd (ByteToSector c h b)"
proof -
  have n: "0 \<le> NumDirect c" using assms(2) by simp
  show ?thesis
    unfolding ByteToSector_walk [OF assms(1,2,3,4)] ByteToSector_walk [OF assms(1,2,3,5)]
      split_offset [OF assms(1) n] assms(6) ..
qed

lemma entry_claimed:
  assumes l: "alloc_loop m ds0 0 n = Inr (m', ds)" and i: "0 \<le> idx" "idx < n"
  shows "read_entry ds idx = Inr (ds ! nat idx) \<and> 0 \<le> ds ! nat idx \<and>
    ds ! nat idx \<in> set (take (nat n) ds)"
proof -
  from alloc_loop_in_bounds [OF l] i have b: "n \<le> int (length ds0)" by simp
  from alloc_loop_result [OF l] have len: "length ds = length ds0"
    and nn: "\<forall>s \<in> set (take (nat n) ds). 0 \<le> s" by simp_all
  from i b len have lt: "nat idx < nat n" "nat idx < length ds" by simp_all
  then have "take (nat n) ds ! nat idx = ds ! nat idx" by simp
  moreover have "take (nat n) ds ! nat idx \<in> set (take (nat n) ds)"
    using lt by (intro nth_mem) simp
  ultimately have mem: "ds ! nat idx \<in> set (take (nat n) ds)" by simp
  with nn i lt show ?thesis by (simp add: read_entry_def)
qed

lemma Allocate_within:
  assumes "0 < SectorSize c" "0 < NumDirect c"
  shows "0 \<le> f \<Longrightarrow> nextHeader h = Null \<Longrightarrow> Allocate c m h f = Inr (m', h', True) \<Longrightarrow>
    0 \<le> off \<Longrightarrow> off < divRoundUp f (SectorSize c) * SectorSize c \<Longrightarrow>
    \<exists>s. snd (ByteToSector c h' off) = Inr s \<and> 0 \<le> s \<and> s \<in> set (data_sectors h')"
proof (induction "nat f" arbitrary: f m h m' h' off rule: less_induct)
  case less
  note M = MaxFileSize_pos [OF assms]
  let ?idx = "off div SectorSize c"
  have i0: "0 \<le> ?idx" using assms(1) less.prems(4) by (simp add: pos_imp_zdiv_nonneg_iff)
  from less.prems(3) show ?case
  proof (cases rule: Allocate_True_cases)
    case (last ds)
    let ?ns = "divRoundUp f (SectorSize c)"
    have lt: "?idx < ?ns" using assms(1) less.prems(5) by (rule div_less_of_less_mult)
    have "f \<le> NumDirect c * SectorSize c" using last(1) by (simp add: MaxFileSize_def)
    from divRoundUp_le [OF assms(1) this] lt have nd: "?idx < NumDirect c" by simp
    from entry_claimed [OF last(2) i0 lt] nd last(3) less.prems(2,4) assms(1)
    show ?thesis by (simp add: c_div_nonneg Let_def data_sectors_simps)
  next
    case (more m1 ds s m2 nxt)
    let ?ns = "divRoundUp (MaxFileSize c) (SectorSize c)"
    show ?thesis
    proof (cases "off < MaxFileSize c")
      case True
      then have nd: "?idx < NumDirect c" by (simp add: idx_less_iff [OF assms(1)])
      have lt: "?idx < ?ns" using assms(1) True by (rule div_less_divRoundUp)
      from entry_claimed [OF more(2) i0 lt] nd more(6) less.prems(4) assms(1)
      show ?thesis by (simp add: c_div_nonneg Let_def data_sectors_simps)
    next
      case False
      then have nd: "\<not> ?idx < NumDirect c" by (simp add: idx_less_iff [OF assms(1)])
      have r: "0 \<le> f - MaxFileSize c" "nat (f - MaxFileSize c) < nat f"
        using more(1) M by auto
      have fr: "nextHeader (FileHeader c) = Null" by (simp add: FileHeader_def)
      have "divRoundUp (f - MaxFileSize c) (SectorSize c) * SectorSize c
          = divRoundUp f (SectorSize c) * SectorSize c - MaxFileSize c"
        unfolding MaxFileSize_def divRoundUp_sub_mult [OF assms(1)]
        by (simp add: algebra_simps)
      with less.prems(5) False
      have o: "0 \<le> off - MaxFileSize c"
        "off - MaxFileSize c < divRoundUp (f - MaxFileSize c) (SectorSize c) * SectorSize c"
        by simp_all
      from less.hyps [OF r(2) r(1) fr more(5) o]
      obtain t where t: "snd (ByteToSector c nxt (off - MaxFileSize c)) = Inr t" "0 \<le> t"
        "t \<in> set (data_sectors nxt)" by blast
      with nd more(6) less.prems(4) assms(1) show ?thesis
        by (auto simp: c_div_nonneg Let_def data_sectors_simps split: prod.splits)
    qed
  qed
qed

lemma Allocate_beyond:
  assumes "0 < SectorSize c" "0 < NumDirect c"
  shows "0 \<le> f \<Longrightarrow> dataSectors h = replicate (nat (NumDirect c)) (- 1) \<Longrightarrow>
    nextHeader h = Null \<Longrightarrow> Allocate c m h f = Inr (m', h', True) \<Longrightarrow>
    divRoundUp f (SectorSize c) * SectorSize c \<le> off \<Longrightarrow>
    snd (ByteToSector c h' off) = Inr (- 1)"
proof (induction "nat f" arbitrary: f m h m' h' off rule: less_induct)
  case less
  note M = MaxFileSize_pos [OF assms]
  from divRoundUp_covers [OF assms(1), of f] less.prems have fo: "f \<le> off" "0 \<le> off" by auto
  from less.prems(4) show ?case
  proof (cases rule: Allocate_True_cases)
    case (last ds)
    let ?ns = "divRoundUp f (SectorSize c)"
    let ?idx = "off div SectorSize c"
    from alloc_loop_result [OF last(2)] less.prems(2)
    have len: "length ds = nat (NumDirect c)"
      and dr: "drop (nat ?ns) ds = drop (nat ?ns) (replicate (nat (NumDirect c)) (- 1))"
      by simp_all
    have ns: "0 \<le> ?ns" using less.prems(1) assms(1) by (rule divRoundUp_nonneg [rotated])
    have le: "?ns \<le> ?idx" using assms(1) less.prems(5) by (rule mult_le_imp_le_div)
    have "read_entry ds ?idx = Inr (- 1)" if lt: "?idx < NumDirect c"
    proof -
      from ns le lt obtain j where j: "nat ?idx = nat ?ns + j" "nat ?ns + j < nat (NumDirect c)"
        by (metis le_Suc_ex nat_mono nat_mono_iff order_le_less_trans)
      have "ds ! nat ?idx = drop (nat ?ns) ds ! j" using j len by simp
      also have "\<dots> = - 1" unfolding dr using j by simp
      finally show ?thesis using ns le lt len by (simp add: read_entry_def)
    qed
    with last(3) less.prems(3) fo(2) assms(1) show ?thesis
      by (simp add: c_div_nonneg Let_def)
  next
    case (more m1 ds s m2 nxt)
    have r: "0 \<le> f - MaxFileSize c" "nat (f - MaxFileSize c) < nat f"
      using more(1) M by auto
    have fr: "dataSectors (FileHeader c) = replicate (nat (NumDirect c)) (- 1)"
      "nextHeader (FileHeader c) = Null" by (simp_all add: FileHeader_def)
    have "divRoundUp (f - MaxFileSize c) (SectorSize c) * SectorSize c
        = divRoundUp f (SectorSize c) * SectorSize c - MaxFileSize c"
      unfolding MaxFileSize_def divRoundUp_sub_mult [OF assms(1)]
      by (simp add: algebra_simps)
    with less.prems(5)
    have "divRoundUp (f - MaxFileSize c) (SectorSize c) * SectorSize c \<le> off - MaxFileSize c"
      by simp
    note IH = less.hyps [OF r(2) r(1) fr more(5) this]
    have "\<not> off div SectorSize c < NumDirect c"
      using fo more(1) by (simp add: idx_less_iff [OF assms(1)])
    with more(6) IH fo(2) assms(1) show ?thesis
      by (auto simp: c_div_nonneg Let_def split: prod.splits)
  qed
qed

subsection \<open>The on-disk record\<close>

lemma length_enc32: "length (enc32 x) = 4"
  by (simp add: enc32_def)

lemma uint_byte: "uint (word_of_int k :: byte) = k mod 256"
  by (simp add: uint_word_of_int)

lemma bytes_value:
  "foldr (\<lambda>b a. uint b + 256 * a) (enc32 x) 0 = x mod 2 ^ 32"
proof -
  have s1: "x mod 2 ^ 32 = 256 * (x div 256 mod 2 ^ 24) + x mod 256"
    using zmod_zmult2_eq [of "2 ^ 24" x 256] by simp
  have s2: "x div 256 mod 2 ^ 24 = 256 * (x div 256 div 256 mod 2 ^ 16) + x div 256 mod 256"
    using zmod_zmult2_eq [of "2 ^ 16" "x div 256" 256] by simp
  have s3: "x div 256 div 256 mod 2 ^ 16
      = 256 * (x div 256 div 256 div 256 mod 256) + x div 256 div 256 mod 256"
    using zmod_zmult2_eq [of "256" "x div 256 div 256" 256] by simp
  have d2: "x div 65536 = x div 256 div 256"
    using zdiv_zmult2_eq [of 256 x 256] by simp
  have d3: "x div 16777216 = x div 256 div 256 div 256"
    using zdiv_zmult2_eq [of 65536 x 256] zdiv_zmult2_eq [of 256 "x div 256" 256] by simp
  show ?thesis
    unfolding enc32_def s1 s2 s3
    by (simp add: uint_byte d2 d3)
qed

lemma dec32_enc32: "int32 x \<Longrightarrow> dec32 (enc32 x) = x"
proof -
  assume r: "int32 x"
  show ?thesis
  proof (cases "0 \<le> x")
    case True
    with r have "x mod 2 ^ 32 = x" by (simp add: int32_def)
    with r True show ?thesis by (simp add: dec32_def bytes_value int32_def)
  next
    case False
    with r have "(x + 2 ^ 32) mod 2 ^ 32 = x + 2 ^ 32"
      by (intro mod_pos_pos_trivial) (simp_all add: int32_def)
    then have "x mod 2 ^ 32 = x + 2 ^ 32" by simp
    with r False show ?thesis by (simp add: dec32_def bytes_value int32_def)
  qed
qed

lemma length_concat_enc32: "length (concat (map enc32 xs)) = 4 * length xs"
  by (induction xs) (simp_all add: length_enc32)

lemma chunks4_enc32: "chunks4 (concat (map enc32 xs)) = map enc32 xs"
  by (induction xs) (simp_all add: enc32_def)

lemma map_dec32_enc32: "list_all int32 xs \<Longrightarrow> map (dec32 \<circ> enc32) xs = xs"
  by (induction xs) (simp_all add: dec32_enc32)

lemma get_put_same:
  "put_bytes buf off bs = Inr buf' \<Longrightarrow> get_bytes buf' off (length bs) = Inr bs"
  by (auto simp: put_bytes_def get_bytes_def split: if_splits)

lemma get_put_other:
  "put_bytes buf off bs = Inr buf' \<Longrightarrow> o2 + n \<le> off \<or> off + length bs \<le> o2 \<Longrightarrow>
   get_bytes buf' o2 n = get_bytes buf o2 n"
proof -
  assume p: "put_bytes buf off bs = Inr buf'" and far: "o2 + n \<le> off \<or> off + length bs \<le> o2"
  from p have fit: "off + length bs \<le> length buf"
    and b: "buf' = take off buf @ bs @ drop (off + length bs) buf"
    by (auto simp: put_bytes_def split: if_splits)
  from b fit have len: "length buf' = length buf" by simp
  show ?thesis
  proof (cases "o2 + n \<le> length buf")
    case False
    with len show ?thesis by (simp add: get_bytes_def)
  next
    case True
    have "take n (drop o2 buf') = take n (drop o2 buf)"
    proof (rule nth_equalityI)
      show "length (take n (drop o2 buf')) = length (take n (drop o2 buf))"
        using len by simp
    next
      fix i assume "i < length (take n (drop o2 buf'))"
      then have i: "i < n" "o2 + i < length buf" using len by auto
      have "buf' ! (o2 + i) = buf ! (o2 + i)"
      proof (cases "o2 + n \<le> off")
        case True
        with i fit show ?thesis unfolding b by (simp add: nth_append)
      next
        case False
        with far have g: "off + length bs \<le> o2" by simp
        then obtain k where k: "o2 + i = off + length bs + k" by (metis le_add_diff_inverse trans_le_add1)
        have "buf' ! (off + length bs + k) = (bs @ drop (off + length bs) buf) ! (length bs + k)"
          unfolding b using fit by (simp add: nth_append)
        also have "\<dots> = drop (off + length bs) buf ! k" by (simp add: nth_append)
        also have "\<dots> = buf ! (off + length bs + k)" using fit by simp
        finally show ?thesis unfolding k .
      qed
      with i len show "take n (drop o2 buf') ! i = take n (drop o2 buf) ! i" by simp
    qed
    with True len show ?thesis by (simp add: get_bytes_def)
  qed
qed

lemma put_bytes_ok:
  "off + length bs \<le> length buf \<Longrightarrow> \<exists>b. put_bytes buf off bs = Inr b \<and> length b = length buf"
  by (simp add: put_bytes_def)

lemma pack_unpack:
  assumes fit: "12 + 4 * nat (NumDirect c) \<le> length buf"
    and len: "length (dataSectors h) = nat (NumDirect c)"
    and rng: "int32 (numBytes h)" "int32 (numSectors h)" "list_all int32 (dataSectors h)"
      "int32 (nextHeaderSector h)"
  shows "\<exists>b. pack c buf h = Inr b \<and> length b = length buf \<and>
    unpack c b = Inr (numBytes h, numSectors h, dataSectors h, nextHeaderSector h)"
proof -
  let ?n = "nat (NumDirect c)"
  let ?t = "concat (map enc32 (dataSectors h))"
  have lt: "length ?t = 4 * ?n" by (simp add: length_concat_enc32 len)
  from fit put_bytes_ok [of 0 "enc32 (numBytes h)" buf]
  obtain b1 where b1: "put_bytes buf 0 (enc32 (numBytes h)) = Inr b1" "length b1 = length buf"
    by (auto simp: length_enc32)
  from fit b1(2) put_bytes_ok [of 4 "enc32 (numSectors h)" b1]
  obtain b2 where b2: "put_bytes b1 4 (enc32 (numSectors h)) = Inr b2" "length b2 = length buf"
    by (auto simp: length_enc32)
  from fit b2(2) lt put_bytes_ok [of 8 ?t b2]
  obtain b3 where b3: "put_bytes b2 8 ?t = Inr b3" "length b3 = length buf"
    by auto
  from fit b3(2) put_bytes_ok [of "8 + 4 * ?n" "enc32 (nextHeaderSector h)" b3]
  obtain b4 where b4: "put_bytes b3 (8 + 4 * ?n) (enc32 (nextHeaderSector h)) = Inr b4"
    "length b4 = length buf"
    by (auto simp: length_enc32)
  have p: "pack c buf h = Inr b4"
    using b1(1) b2(1) b3(1) b4(1) by (simp add: pack_def len)
  have g4: "get_bytes b4 (8 + 4 * ?n) 4 = Inr (enc32 (nextHeaderSector h))"
    using get_put_same [OF b4(1)] by (simp add: length_enc32)
  have "get_bytes b4 8 (4 * ?n) = get_bytes b3 8 (4 * ?n)"
    by (rule get_put_other [OF b4(1)]) simp
  also have "\<dots> = Inr ?t" using get_put_same [OF b3(1)] by (simp add: lt)
  finally have g3: "get_bytes b4 8 (4 * ?n) = Inr ?t" .
  have "get_bytes b4 4 4 = get_bytes b3 4 4"
    by (rule get_put_other [OF b4(1)]) simp
  also have "\<dots> = get_bytes b2 4 4"
    by (rule get_put_other [OF b3(1)]) simp
  also have "\<dots> = Inr (enc32 (numSectors h))"
    using get_put_same [OF b2(1)] by (simp add: length_enc32)
  finally have g2: "get_bytes b4 4 4 = Inr (enc32 (numSectors h))" .
  have "get_bytes b4 0 4 = get_bytes b3 0 4"
    by (rule get_put_other [OF b4(1)]) simp
  also have "\<dots> = get_bytes b2 0 4"
    by (rule get_put_other [OF b3(1)]) simp
  also have "\<dots> = get_bytes b1 0 4"
    by (rule get_put_other [OF b2(1)]) simp
  also have "\<dots> = Inr (enc32 (numBytes h))"
    using get_put_same [OF b1(1)] by (simp add: length_enc32)
  finally have g1: "get_bytes b4 0 4 = Inr (enc32 (numBytes h))" .
  have "unpack c b4 = Inr (numBytes h, numSectors h, dataSectors h, nextHeaderSector h)"
    unfolding unpack_def g1 g2 g3 g4
    using rng by (simp add: dec32_enc32 chunks4_enc32 map_dec32_enc32)
  with p b4(2) show ?thesis by blast
qed

lemma pack_ok:
  "12 + 4 * nat (NumDirect c) \<le> length buf \<Longrightarrow> length (dataSectors h) = nat (NumDirect c) \<Longrightarrow>
   \<exists>b. pack c buf h = Inr b"
  by (auto simp: pack_def put_bytes_def length_enc32 length_concat_enc32 split: sum.splits)

lemma unpack_ok:
  "12 + 4 * nat (NumDirect c) \<le> length buf \<Longrightarrow> \<exists>r. unpack c buf = Inr r"
  by (auto simp: unpack_def get_bytes_def split: sum.splits)

lemma pack_overflow:
  "length buf < 12 + 4 * nat (NumDirect c) \<Longrightarrow> length (dataSectors h) = nat (NumDirect c) \<Longrightarrow>
   pack c buf h = Inl OutOfBounds"
  by (auto simp: pack_def put_bytes_def length_enc32 length_concat_enc32 split: sum.splits)

lemma unpack_overflow:
  "length buf < 12 + 4 * nat (NumDirect c) \<Longrightarrow> unpack c buf = Inl OutOfBounds"
  by (auto simp: unpack_def get_bytes_def split: sum.splits)

lemma fits_nat:
  assumes "0 \<le> NumDirect c" "(NumDirect c + 3) * 4 \<le> SectorSize c"
  shows "12 + 4 * nat (NumDirect c) \<le> length (map f [0 ..< nat (SectorSize c)])"
  using assms by simp

lemma WriteBack_frame:
  "WriteBack c junk d h sector = Inr d' \<Longrightarrow> x \<noteq> sector \<Longrightarrow> x \<notin> set (link_sectors h) \<Longrightarrow>
   d' x = d x"
proof (induction h arbitrary: d sector rule: chain.induct)
  case (1 nb ns ds nxs)
  then show ?case
    by (auto simp: WriteSector_def Let_def split: sum.splits if_splits)
next
  case (2 nb ns ds n nxs)
  from "2.prems"(1) obtain buf where
    b: "pack c (map (junk sector) [0 ..< nat (SectorSize c)]) (Hdr nb ns ds (Live n) nxs) = Inr buf"
    by (auto split: sum.splits)
  show ?case
  proof (cases "nxs = - 1")
    case True
    with "2.prems" b show ?thesis by (auto simp: WriteSector_def)
  next
    case False
    with "2.prems"(1) b have w: "WriteBack c junk (WriteSector d sector buf) n nxs = Inr d'"
      by simp
    from "2.prems"(3) have "x \<noteq> nxs" "x \<notin> set (link_sectors n)"
      by (simp_all add: data_sectors_simps)
    from "2.IH" [OF w this] "2.prems"(2) show ?thesis by (simp add: WriteSector_def)
  qed
next
  case (3 nb ns ds nxs)
  then show ?case
    by (auto simp: WriteSector_def Let_def split: sum.splits if_splits)
qed

lemma stored_allocated: "Allocate fitting (True # replicate 41 False) (FileHeader fitting) 5000 = Inr (replicate 42 True, stored, True)"
  by code_simp

subsection \<open>C1: a failed Allocate and the Free-Space Map\<close>




subsection \<open>C2: Allocate followed by Deallocate\<close>

text \<open>
  Claim C2 as stated, that \<open>Deallocate\<close> after a successful \<open>Allocate\<close> restores the map,
  fails for a chain of two nodes: of the 41 sectors claimed for 5000 bytes, sector 30,
  which holds the continuation header, stays marked used.
\<close>

theorem Allocate_Deallocate_counterexample:
  "Allocate nachos (replicate 41 False) (FileHeader nachos) 5000 =
     Inr (replicate 41 True, two_nodes, True) \<and>
   Deallocate (replicate 41 True) two_nodes = Inr (replicate 30 False @ True # replicate 10 False) \<and>
   replicate 30 False @ True # replicate 10 False \<noteq> replicate 41 False"
proof -
  have "Allocate nachos (replicate 41 False) (FileHeader nachos) 5000 =
     Inr (replicate 41 True, two_nodes, True)" by code_simp
  moreover have "Deallocate (replicate 41 True) two_nodes =
     Inr (replicate 30 False @ True # replicate 10 False)" by code_simp
  moreover have "replicate 30 False @ True # replicate 10 False \<noteq> replicate 41 False"
    by code_simp
  ultimately show ?thesis by simp
qed

text \<open>
  Claim C2, amended. After a successful \<open>Allocate\<close> on a freshly constructed header,
  \<open>Deallocate\<close> returns and frees every data sector of the chain. The map it leaves
  marks the sectors marked before \<open>Allocate\<close> and the sectors of the continuation
  headers, one for each node after the first, which were free before. It is the map
  before \<open>Allocate\<close> exactly when the chain has one node, as it has when
  \<open>totalBytes \<le> MaxFileSize\<close>.
\<close>

theorem Allocate_then_Deallocate:
  assumes "Allocate c freeMap (FileHeader c) totalBytes = Inr (m1, h, True)"
  shows "\<exists>m2. Deallocate m1 h = Inr m2 \<and> length m2 = length freeMap \<and>
           marked m2 = marked freeMap \<union> set (link_sectors h) \<and>
           set (link_sectors h) \<inter> marked freeMap = {} \<and> distinct (link_sectors h) \<and>
           length (link_sectors h) = length (chain h) - 1 \<and>
           (m2 = freeMap \<longleftrightarrow> length (chain h) = 1) \<and>
           (totalBytes \<le> MaxFileSize c \<longrightarrow> m2 = freeMap)"
proof -
  have fresh: "nextHeader (FileHeader c) = Null" by (simp add: FileHeader_def)
  let ?A = "set (data_sectors h)" and ?B = "set (link_sectors h)"
  from Allocate_effect [OF fresh assms]
  have E: "tables_ok h" "length m1 = length freeMap"
    "distinct (data_sectors h @ link_sectors h)"
    "(?A \<union> ?B) \<inter> marked freeMap = {}"
    "marked m1 = marked freeMap \<union> ?A \<union> ?B"
    by simp_all
  from E(3) have D: "distinct (data_sectors h)" "distinct (link_sectors h)" "?A \<inter> ?B = {}"
    by simp_all
  from E(5) have "?A \<subseteq> marked m1" by blast
  with D(1) Deallocate_spec [OF E(1), of m1] obtain m2 where
    m2: "Deallocate m1 h = Inr m2" "length m2 = length m1"
      "marked m2 = marked m1 - ?A" by blast
  have mk: "marked m2 = marked freeMap \<union> ?B"
    unfolding m2(3) E(5) using E(4) D(3) by blast
  have dj: "?B \<inter> marked freeMap = {}" using E(4) by blast
  have l2: "length m2 = length freeMap" using m2(2) E(2) by simp
  have len: "length (link_sectors h) = length (chain h) - 1"
    by (simp add: link_sectors_def)
  have iff: "m2 = freeMap \<longleftrightarrow> length (chain h) = 1"
  proof
    assume e: "m2 = freeMap"
    have "?B \<subseteq> marked m2" unfolding mk by simp
    then have "?B \<subseteq> marked freeMap" unfolding e .
    then have "?B \<inter> marked freeMap = ?B" by (rule Int_absorb2)
    with dj have "link_sectors h = []" by simp
    then have "length (link_sectors h) = 0" by simp
    with len have "length (chain h) \<le> 1" by simp
    moreover have "0 < length (chain h)" using chain_nonempty [of h] by simp
    ultimately show "length (chain h) = 1" by linarith
  next
    assume "length (chain h) = 1"
    then have "length (link_sectors h) = 0" unfolding len by simp
    then have "link_sectors h = []" by simp
    with mk have "marked m2 = marked freeMap" by simp
    with l2 show "m2 = freeMap" by (rule bitmap_eqI)
  qed
  have single: "length (chain h) = 1" if "totalBytes \<le> MaxFileSize c"
    using assms
  proof (cases rule: Allocate_True_cases)
    case (last ds)
    from last(3) fresh show ?thesis by simp
  next
    case (more m1' ds s m2' nxt)
    from more(1) that show ?thesis by simp
  qed
  have small: "totalBytes \<le> MaxFileSize c \<longrightarrow> m2 = freeMap"
    using single iff by simp
  from m2(1) l2 mk dj D(2) len iff small show ?thesis by (intro exI [of _ m2]) simp
qed

theorem Allocate_then_Deallocate_witness:
  "Allocate nachos [False] (FileHeader nachos) 100 = Inr ([True], one_node, True) \<and>
   (100::int) \<le> MaxFileSize nachos \<and> length (chain one_node) = 1 \<and>
   Deallocate [True] one_node = Inr [False]"
proof -
  have a: "Allocate nachos [False] (FileHeader nachos) 100 = Inr ([True], one_node, True)"
    by code_simp
  have b: "(100::int) \<le> MaxFileSize nachos" by code_simp
  have c: "length (chain one_node) = 1" by code_simp
  from Allocate_then_Deallocate [OF a] obtain m2 where
    "Deallocate [True] one_node = Inr m2" "100 \<le> MaxFileSize nachos \<longrightarrow> m2 = [False]"
    by blast
  with b have "Deallocate [True] one_node = Inr [False]" by simp
  with a b c show ?thesis by simp
qed

subsection \<open>C3: the shape of an allocated chain\<close>

text \<open>
  Claim C3. For every \<open>totalBytes \<ge> 0\<close>, after a successful \<open>Allocate\<close> on a freshly
  constructed header: \<open>FileLength\<close> returns \<open>totalBytes\<close>; the chain has
  \<open>ceil(totalBytes / MaxFileSize)\<close> nodes (one node when \<open>totalBytes = 0\<close>); every node but
  the last has \<open>numBytes = MaxFileSize\<close>; every node has
  \<open>numSectors = ceil(numBytes / SectorSize)\<close>. With \<open>SectorSize = 128\<close> and
  \<open>NumDirect = 30\<close>, \<open>Allocate(5000)\<close> gives a first node of 3840 bytes in 30 sectors
  and a second node of 1160 bytes in 10 sectors.
\<close>

theorem Allocate_chain_shape:
  assumes "0 < SectorSize c" and "0 < NumDirect c" and "0 \<le> totalBytes"
    and "Allocate c freeMap (FileHeader c) totalBytes = Inr (freeMap', h, True)"
  shows "snd (FileLength h) = Inr totalBytes \<and>
    int (length (chain h)) = (if totalBytes = 0 then 1 else divRoundUp totalBytes (MaxFileSize c)) \<and>
    (\<forall>n \<in> set (butlast (chain h)). numBytes n = MaxFileSize c) \<and>
    (\<forall>n \<in> set (chain h). numSectors n = divRoundUp (numBytes n) (SectorSize c)) \<and>
    (SectorSize c = 128 \<and> NumDirect c = 30 \<and> totalBytes = 5000 \<longrightarrow>
       map (\<lambda>n. (numBytes n, numSectors n)) (chain h) = [(3840, 30), (1160, 10)])"
proof -
  have fresh: "nextHeader (FileHeader c) = Null" by (simp add: FileHeader_def)
  note gen = Allocate_shape [OF assms(1,2,3) fresh assms(4)]
  have "map (\<lambda>n. (numBytes n, numSectors n)) (chain h) = [(3840, 30), (1160, 10)]"
    if k: "SectorSize c = 128" "NumDirect c = 30" "totalBytes = 5000"
  proof -
    have M: "MaxFileSize c = 3840" using k by (simp add: MaxFileSize_def)
    from assms(4) show ?thesis
    proof (cases rule: Allocate_True_cases)
      case (last ds)
      with M k show ?thesis by simp
    next
      case (more m1 ds s m2 nxt)
      from more(5) show ?thesis
      proof (cases rule: Allocate_True_cases)
        case (last ds')
        with more(6) M k fresh show ?thesis by (simp add: divRoundUp_def)
      next
        case (more m1' ds' s' m2' nxt')
        with M k show ?thesis by simp
      qed
    qed
  qed
  with gen show ?thesis by blast
qed

theorem Allocate_chain_shape_witness:
  "0 < SectorSize nachos \<and> 0 < NumDirect nachos \<and> (0::int) \<le> 5000 \<and>
   Allocate nachos (replicate 41 False) (FileHeader nachos) 5000 =
     Inr (replicate 41 True, two_nodes, True) \<and>
   snd (FileLength two_nodes) = Inr 5000 \<and>
   map (\<lambda>n. (numBytes n, numSectors n)) (chain two_nodes) = [(3840, 30), (1160, 10)]"
proof -
  have k: "0 < SectorSize nachos" "0 < NumDirect nachos" "(0::int) \<le> 5000"
    by (simp_all add: nachos_def)
  have a: "Allocate nachos (replicate 41 False) (FileHeader nachos) 5000 =
     Inr (replicate 41 True, two_nodes, True)"
    by code_simp
  have n: "SectorSize nachos = 128 \<and> NumDirect nachos = 30 \<and> (5000::int) = 5000"
    by (simp add: nachos_def)
  from Allocate_chain_shape [OF k a] n k a show ?thesis by blast
qed

subsection \<open>C4: WriteBack followed by FetchFrom\<close>

text \<open>
  Claim C4 as stated, that \<open>WriteBack\<close> followed by \<open>FetchFrom\<close> reconstructs every
  populated chain, fails for \<open>SectorSize = 128\<close> and \<open>NumDirect = 30\<close>: the chain of two
  nodes built for 5000 bytes is populated and its continuation header lies in sector 30,
  apart from the root sector 41, yet \<open>WriteBack(41)\<close> copies \<^verbatim>\<open>nextHeaderSector\<close> to
  offset 128 of its buffer of 128 bytes and writes no such record.
\<close>

theorem WriteBack_FetchFrom_counterexample:
  "0 \<le> NumDirect nachos \<and> populated nachos two_nodes \<and> distinct (41 # link_sectors two_nodes) \<and>
   length (chain two_nodes) \<le> 2 \<and>
   WriteBack nachos zeroed blank two_nodes 41 = Inl OutOfBounds"
proof -
  have a: "populated nachos two_nodes" by code_simp
  have b: "distinct (41 # link_sectors two_nodes)" by code_simp
  have c: "length (chain two_nodes) \<le> 2" by code_simp
  have "pack nachos (map (zeroed 41) [0 ..< nat (SectorSize nachos)])
      (Hdr 3840 30 (map int [0..<30])
        (Live (Hdr 1160 10 (map int [31..<41] @ replicate 20 (- 1)) Null (- 1))) 30)
      = Inl OutOfBounds"
    by (rule pack_overflow) (simp_all add: nachos_def)
  then have d: "WriteBack nachos zeroed blank two_nodes 41 = Inl OutOfBounds"
    by (simp add: two_nodes_def)
  from a b c d show ?thesis by (simp add: nachos_def)
qed

text \<open>
  Claim C4, amended. Where the record fits the sector, \<open>(NumDirect + 3) * 4 \<le> SectorSize\<close>,
  for every populated chain written at a root sector that differs from the sectors of its
  continuation headers (themselves pairwise distinct): \<open>WriteBack(rootSector)\<close> returns,
  and \<open>FetchFrom(rootSector)\<close> on a freshly constructed header then returns, within a
  recursion depth of the length of the chain, a chain equal to the one written in every
  field of every node.
\<close>

theorem WriteBack_FetchFrom:
  assumes "0 \<le> NumDirect c" and "(NumDirect c + 3) * 4 \<le> SectorSize c"
    and "populated c h" and "distinct (rootSector # link_sectors h)"
    and "length (chain h) \<le> fuel"
  shows "\<exists>d'. WriteBack c junk d h rootSector = Inr d' \<and>
           FetchFrom fuel c d' (FileHeader c) rootSector = Some (Inr h)"
  using assms(3-5)
proof (induction h arbitrary: d rootSector fuel rule: chain.induct)
  case (1 nb ns ds nxs)
  let ?h = "Hdr nb ns ds Null nxs"
  from "1.prems"(1) have P: "length ds = nat (NumDirect c)" "nxs = - 1" "int32 nb" "int32 ns"
    "list_all int32 ds" by simp_all
  have "int32 (- 1)" by (simp add: int32_def)
  with P pack_unpack [OF fits_nat [OF assms(1,2)], of ?h "junk rootSector"]
  obtain buf where b: "pack c (map (junk rootSector) [0 ..< nat (SectorSize c)]) ?h = Inr buf"
    "unpack c buf = Inr (nb, ns, ds, nxs)" "length buf = nat (SectorSize c)" by auto
  from "1.prems"(3) obtain k where k: "fuel = Suc k" by (cases fuel) auto
  have "WriteBack c junk d ?h rootSector = Inr (WriteSector d rootSector buf)"
    using b(1) P(2) by simp
  moreover have "FetchFrom fuel c (WriteSector d rootSector buf) (FileHeader c) rootSector
      = Some (Inr ?h)"
    unfolding k using b(2,3) P(2) by (simp add: ReadSector_def WriteSector_def FileHeader_def)
  ultimately show ?case by blast
next
  case (2 nb ns ds n nxs)
  let ?h = "Hdr nb ns ds (Live n) nxs"
  from "2.prems"(1) have P: "length ds = nat (NumDirect c)" "nxs \<noteq> - 1" "int32 nxs" "int32 nb"
    "int32 ns" "list_all int32 ds" "populated c n" by simp_all
  from P pack_unpack [OF fits_nat [OF assms(1,2)], of ?h "junk rootSector"]
  obtain buf where b: "pack c (map (junk rootSector) [0 ..< nat (SectorSize c)]) ?h = Inr buf"
    "unpack c buf = Inr (nb, ns, ds, nxs)" "length buf = nat (SectorSize c)" by auto
  from "2.prems"(3) obtain k where k: "fuel = Suc k" "length (chain n) \<le> k"
    by (cases fuel) auto
  from "2.prems"(2) have D: "distinct (nxs # link_sectors n)" "rootSector \<noteq> nxs"
    "rootSector \<notin> set (link_sectors n)"
    by (auto simp: data_sectors_simps)
  from "2.IH" [OF P(7) D(1) k(2), of "WriteSector d rootSector buf"]
  obtain d' where d': "WriteBack c junk (WriteSector d rootSector buf) n nxs = Inr d'"
    "FetchFrom k c d' (FileHeader c) nxs = Some (Inr n)" by blast
  from WriteBack_frame [OF d'(1) D(2,3)]
  have at: "d' rootSector = buf" by (simp add: WriteSector_def)
  have "WriteBack c junk d ?h rootSector = Inr d'"
    using b(1) P(2) d'(1) by simp
  moreover have "FetchFrom fuel c d' (FileHeader c) rootSector = Some (Inr ?h)"
    unfolding k(1) using b(2,3) P(2) d'(2) at by (simp add: ReadSector_def)
  ultimately show ?case by blast
next
  case (3 nb ns ds nxs)
  then show ?case by simp
qed

theorem WriteBack_FetchFrom_witness:
  "0 \<le> NumDirect fitting \<and> (NumDirect fitting + 3) * 4 \<le> SectorSize fitting \<and>
   populated fitting stored \<and> distinct (0 # link_sectors stored) \<and>
   length (chain stored) \<le> 2 \<and>
   (\<exists>d'. WriteBack fitting zeroed blank stored 0 = Inr d' \<and>
      FetchFrom 2 fitting d' (FileHeader fitting) 0 = Some (Inr stored))"
proof -
  have a: "0 \<le> NumDirect fitting" "(NumDirect fitting + 3) * 4 \<le> SectorSize fitting"
    by (simp_all add: fitting_def)
  have b: "populated fitting stored" by code_simp
  have c: "distinct (0 # link_sectors stored)" by code_simp
  have d: "length (chain stored) \<le> 2" by code_simp
  from WriteBack_FetchFrom [OF a b c d, of zeroed blank] a b c d
  show ?thesis by simp
qed

subsection \<open>C5: the record and the sector\<close>

text \<open>
  Claim C5 as stated, that the record of \<open>(NumDirect + 3) * 4\<close> bytes fits one sector and
  every copy stays inside the buffer for \<open>SectorSize = 128\<close> and \<open>NumDirect = 30\<close>, fails:
  the record has 132 bytes, and the copy of \<^verbatim>\<open>nextHeaderSector\<close> at offset 128 leaves the
  buffer of 128 bytes, in \<open>WriteBack\<close> and in \<open>FetchFrom\<close>.
\<close>

theorem record_in_sector_counterexample:
  "(NumDirect nachos + 3) * 4 = 132 \<and> SectorSize nachos = 128 \<and>
   length (replicate 128 0 :: byte list) = nat (SectorSize nachos) \<and>
   pack nachos (replicate 128 0) (FileHeader nachos) = Inl OutOfBounds \<and>
   unpack nachos (replicate 128 0) = Inl OutOfBounds"
proof -
  have "pack nachos (replicate 128 0) (FileHeader nachos) = Inl OutOfBounds"
    by (rule pack_overflow) (simp_all add: nachos_def FileHeader_def)
  moreover have "unpack nachos (replicate 128 0) = Inl OutOfBounds"
    by (rule unpack_overflow) (simp add: nachos_def)
  ultimately show ?thesis by (simp add: nachos_def)
qed

text \<open>
  Claim C5, amended. On a buffer of \<open>SectorSize\<close> bytes, the four copies of \<open>WriteBack\<close>
  and the four copies of \<open>FetchFrom\<close> all stay inside the buffer if and only if
  \<open>(NumDirect + 3) * 4 \<le> SectorSize\<close>; with \<open>SectorSize = 128\<close> that is
  \<open>NumDirect \<le> 29\<close>.
\<close>

theorem record_in_sector:
  assumes "0 \<le> NumDirect c" and "length (dataSectors h) = nat (NumDirect c)"
    and "length buf = nat (SectorSize c)"
  shows "((\<exists>b. pack c buf h = Inr b) \<longleftrightarrow> (NumDirect c + 3) * 4 \<le> SectorSize c) \<and>
         ((\<exists>r. unpack c buf = Inr r) \<longleftrightarrow> (NumDirect c + 3) * 4 \<le> SectorSize c) \<and>
         (SectorSize c < (NumDirect c + 3) * 4 \<longrightarrow>
            pack c buf h = Inl OutOfBounds \<and> unpack c buf = Inl OutOfBounds)"
proof (cases "(NumDirect c + 3) * 4 \<le> SectorSize c")
  case True
  with assms(1,3) have "12 + 4 * nat (NumDirect c) \<le> length buf" by simp
  from pack_ok [OF this assms(2)] unpack_ok [OF this] True show ?thesis by simp
next
  case False
  with assms(1,3) have "length buf < 12 + 4 * nat (NumDirect c)" by simp
  from pack_overflow [OF this assms(2)] unpack_overflow [OF this] False show ?thesis by simp
qed

theorem record_in_sector_witness:
  "0 \<le> NumDirect fitting \<and>
   length (dataSectors (FileHeader fitting)) = nat (NumDirect fitting) \<and>
   length (replicate 128 0 :: byte list) = nat (SectorSize fitting) \<and>
   (NumDirect fitting + 3) * 4 \<le> SectorSize fitting \<and>
   (\<exists>b. pack fitting (replicate 128 0) (FileHeader fitting) = Inr b) \<and>
   (\<exists>r. unpack fitting (replicate 128 0) = Inr r) \<and>
   0 \<le> NumDirect nachos \<and>
   length (dataSectors (FileHeader nachos)) = nat (NumDirect nachos) \<and>
   length (replicate 128 0 :: byte list) = nat (SectorSize nachos) \<and>
   SectorSize nachos < (NumDirect nachos + 3) * 4 \<and>
   pack nachos (replicate 128 0) (FileHeader nachos) = Inl OutOfBounds"
proof -
  have a: "0 \<le> NumDirect fitting"
    "length (dataSectors (FileHeader fitting)) = nat (NumDirect fitting)"
    "length (replicate 128 0 :: byte list) = nat (SectorSize fitting)"
    by (simp_all add: fitting_def FileHeader_def)
  have b: "(NumDirect fitting + 3) * 4 \<le> SectorSize fitting" by (simp add: fitting_def)
  have c: "0 \<le> NumDirect nachos"
    "length (dataSectors (FileHeader nachos)) = nat (NumDirect nachos)"
    "length (replicate 128 0 :: byte list) = nat (SectorSize nachos)"
    by (simp_all add: nachos_def FileHeader_def)
  have d: "SectorSize nachos < (NumDirect nachos + 3) * 4" by (simp add: nachos_def)
  from record_in_sector [OF a] b
  have "(\<exists>b. pack fitting (replicate 128 0) (FileHeader fitting) = Inr b) \<and>
        (\<exists>r. unpack fitting (replicate 128 0) = Inr r)" by simp
  moreover from record_in_sector [OF c] d
  have "pack nachos (replicate 128 0) (FileHeader nachos) = Inl OutOfBounds" by simp
  ultimately show ?thesis using a b c d by simp
qed

subsection \<open>C6: ByteToSector walks the chain\<close>

text \<open>
  Claim C6. For every chain built by a successful \<open>Allocate\<close> on a freshly constructed
  header and every offset in \<open>[0, FileLength())\<close>, \<open>ByteToSector(offset)\<close> returns entry
  \<open>(offset mod MaxFileSize) / SectorSize\<close> of the table of the node of index
  \<open>offset / MaxFileSize\<close>; that node exists and the entry lies inside its table.
\<close>

theorem ByteToSector_allocated:
  assumes "0 < SectorSize c" and "0 < NumDirect c"
    and "Allocate c freeMap (FileHeader c) totalBytes = Inr (freeMap', h, True)"
    and "snd (FileLength h) = Inr len" and "0 \<le> offset" and "offset < len"
  shows "nat (offset div MaxFileSize c) < length (chain h) \<and>
    nat ((offset mod MaxFileSize c) div SectorSize c)
      < length (dataSectors (chain h ! nat (offset div MaxFileSize c))) \<and>
    snd (ByteToSector c h offset) =
      Inr (dataSectors (chain h ! nat (offset div MaxFileSize c)) !
             nat ((offset mod MaxFileSize c) div SectorSize c))"
proof -
  note M = MaxFileSize_pos [OF assms(1,2)]
  have fresh: "nextHeader (FileHeader c) = Null" "length (dataSectors (FileHeader c)) = nat (NumDirect c)"
    by (simp_all add: FileHeader_def)
  have ok: "ok_chain c h" by (rule Allocate_ok_chain [OF fresh assms(3)])
  have tb: "0 \<le> totalBytes"
  proof (rule ccontr)
    assume "\<not> 0 \<le> totalBytes"
    then have neg: "totalBytes < 0" by simp
    from assms(3) have "numBytes h = totalBytes" "nextHeader h = Null"
      using neg M fresh by (cases rule: Allocate_True_cases; simp)+
    then have "snd (FileLength h) = Inr totalBytes" by (cases h) simp
    with assms(4,5,6) neg show False by simp
  qed
  from Allocate_shape [OF assms(1,2) tb fresh(1) assms(3)] assms(4)
  have len: "len = totalBytes"
    and n: "int (length (chain h)) = (if totalBytes = 0 then 1 else divRoundUp totalBytes (MaxFileSize c))"
    by auto
  from assms(5,6) len have nz: "totalBytes \<noteq> 0" by auto
  have "offset div MaxFileSize c < divRoundUp totalBytes (MaxFileSize c)"
    using M assms(6) len by (intro div_less_divRoundUp) auto
  with n nz have "offset div MaxFileSize c < int (length (chain h))" by simp
  moreover have "0 \<le> offset div MaxFileSize c"
    using M assms(5) by (simp add: pos_imp_zdiv_nonneg_iff)
  ultimately have k: "nat (offset div MaxFileSize c) < length (chain h)" by linarith
  then have "chain h ! nat (offset div MaxFileSize c) \<in> set (chain h)" by simp
  with ok_chain_nodes [OF ok]
  have l: "length (dataSectors (chain h ! nat (offset div MaxFileSize c))) = nat (NumDirect c)"
    by blast
  have "(offset mod MaxFileSize c) div SectorSize c < NumDirect c"
    using M by (simp add: idx_less_iff [OF assms(1)])
  moreover have "0 \<le> (offset mod MaxFileSize c) div SectorSize c"
    using M assms(1) by (simp add: pos_imp_zdiv_nonneg_iff)
  ultimately have j: "nat ((offset mod MaxFileSize c) div SectorSize c) < nat (NumDirect c)" by simp
  from ByteToSector_walk [OF assms(1,2) ok assms(5)] k l j show ?thesis by simp
qed

theorem ByteToSector_allocated_witness:
  "0 < SectorSize nachos \<and> 0 < NumDirect nachos \<and>
   Allocate nachos (replicate 41 False) (FileHeader nachos) 5000 =
     Inr (replicate 41 True, two_nodes, True) \<and>
   snd (FileLength two_nodes) = Inr 5000 \<and> (0::int) \<le> 3900 \<and> (3900::int) < 5000 \<and>
   snd (ByteToSector nachos two_nodes 3900) = Inr 31"
proof -
  have k: "0 < SectorSize nachos" "0 < NumDirect nachos"
    by (simp_all add: nachos_def)
  have a: "Allocate nachos (replicate 41 False) (FileHeader nachos) 5000 =
     Inr (replicate 41 True, two_nodes, True)"
    by code_simp
  have l: "snd (FileLength two_nodes) = Inr 5000" by code_simp
  have o: "(0::int) \<le> 3900" "(3900::int) < 5000" by simp_all
  have e: "dataSectors (chain two_nodes ! nat (3900 div MaxFileSize nachos)) !
             nat ((3900 mod MaxFileSize nachos) div SectorSize nachos) = 31"
    by code_simp
  from ByteToSector_allocated [OF k a l o] e k a l o show ?thesis by simp
qed

subsection \<open>C7: offsets past the end of the file\<close>

text \<open>
  Claim C7 as stated, that \<open>ByteToSector(offset)\<close> returns \<open>-1\<close> for every
  \<open>offset \<ge> FileLength()\<close>, fails: in a file of 100 bytes, offset 110 lies in the first
  (and last) data sector, and that sector is returned.
\<close>

theorem ByteToSector_past_length_counterexample:
  "Allocate nachos [False] (FileHeader nachos) 100 = Inr ([True], one_node, True) \<and>
   snd (FileLength one_node) = Inr 100 \<and> (100::int) \<le> 110 \<and>
   snd (ByteToSector nachos one_node 110) = Inr 0 \<and>
   snd (ByteToSector nachos one_node 110) \<noteq> Inr (- 1)"
proof -
  have "Allocate nachos [False] (FileHeader nachos) 100 = Inr ([True], one_node, True)"
    by code_simp
  moreover have "snd (FileLength one_node) = Inr 100" by code_simp
  moreover have "snd (ByteToSector nachos one_node 110) = Inr 0" by code_simp
  ultimately show ?thesis by simp
qed

text \<open>
  Claim C7, amended. \<open>ByteToSector(offset)\<close> returns \<open>-1\<close> on every chain of \<open>k\<close> nodes
  (no dangling pointer, tables of \<open>NumDirect\<close> entries) when \<open>offset \<ge> k * MaxFileSize\<close>,
  and, on a chain built by a successful \<open>Allocate(totalBytes)\<close> on a freshly constructed
  header, when \<open>offset \<ge> ceil(totalBytes / SectorSize) * SectorSize\<close>, the end of the last
  data sector. On such a chain an offset from \<open>totalBytes\<close> up to that end lies in the last
  data sector and \<open>ByteToSector\<close> returns that sector: a data sector of the chain, not
  negative, the one returned for the last byte of the file.
\<close>

theorem ByteToSector_not_found:
  assumes "0 < SectorSize c" and "0 < NumDirect c"
  shows "(ok_chain c h \<and> int (length (chain h)) * MaxFileSize c \<le> offset \<longrightarrow>
            snd (ByteToSector c h offset) = Inr (- 1)) \<and>
         (0 \<le> totalBytes \<and>
          Allocate c freeMap (FileHeader c) totalBytes = Inr (freeMap', h, True) \<and>
          divRoundUp totalBytes (SectorSize c) * SectorSize c \<le> offset \<longrightarrow>
            snd (ByteToSector c h offset) = Inr (- 1)) \<and>
         (0 \<le> totalBytes \<and>
          Allocate c freeMap (FileHeader c) totalBytes = Inr (freeMap', h, True) \<and>
          totalBytes \<le> offset \<and> offset < divRoundUp totalBytes (SectorSize c) * SectorSize c \<longrightarrow>
            (\<exists>s. snd (ByteToSector c h offset) = Inr s \<and> 0 \<le> s \<and> s \<in> set (data_sectors h) \<and>
                 snd (ByteToSector c h (totalBytes - 1)) = Inr s))"
proof (intro conjI impI; elim conjE)
  note M = MaxFileSize_pos [OF assms]
  assume ok: "ok_chain c h" and le: "int (length (chain h)) * MaxFileSize c \<le> offset"
  from le M have o: "0 \<le> offset"
    by (metis mult_nonneg_nonneg of_nat_0_le_iff order_less_imp_le order_trans)
  from mult_le_imp_le_div [OF M le] have "\<not> nat (offset div MaxFileSize c) < length (chain h)"
    by linarith
  with ByteToSector_walk [OF assms ok o] show "snd (ByteToSector c h offset) = Inr (- 1)"
    by simp
next
  assume "0 \<le> totalBytes"
    and "Allocate c freeMap (FileHeader c) totalBytes = Inr (freeMap', h, True)"
    and "divRoundUp totalBytes (SectorSize c) * SectorSize c \<le> offset"
  then show "snd (ByteToSector c h offset) = Inr (- 1)"
    by (intro Allocate_beyond [OF assms, of totalBytes "FileHeader c"])
       (simp_all add: FileHeader_def)
next
  assume tb: "0 \<le> totalBytes"
    and a: "Allocate c freeMap (FileHeader c) totalBytes = Inr (freeMap', h, True)"
    and lo: "totalBytes \<le> offset"
    and hi: "offset < divRoundUp totalBytes (SectorSize c) * SectorSize c"
  have fresh: "nextHeader (FileHeader c) = Null"
    "length (dataSectors (FileHeader c)) = nat (NumDirect c)"
    by (simp_all add: FileHeader_def)
  have ok: "ok_chain c h" by (rule Allocate_ok_chain [OF fresh a])
  have o: "0 \<le> offset" using tb lo by simp
  have "totalBytes \<noteq> 0"
  proof
    assume "totalBytes = 0"
    with hi divRoundUp_full [OF assms(1), of 0] o show False by simp
  qed
  with tb have l: "0 \<le> totalBytes - 1" by simp
  from Allocate_within [OF assms tb fresh(1) a o hi]
  obtain s where s: "snd (ByteToSector c h offset) = Inr s" "0 \<le> s" "s \<in> set (data_sectors h)"
    by blast
  have "offset div SectorSize c = (totalBytes - 1) div SectorSize c"
    using assms(1) lo hi by (rule last_sector_index)
  from same_sector [OF assms ok o l this] s(1)
  have "snd (ByteToSector c h (totalBytes - 1)) = Inr s" by simp
  with s show "\<exists>s. snd (ByteToSector c h offset) = Inr s \<and> 0 \<le> s \<and> s \<in> set (data_sectors h) \<and>
                 snd (ByteToSector c h (totalBytes - 1)) = Inr s" by blast
qed

theorem ByteToSector_not_found_witness:
  "0 < SectorSize nachos \<and> 0 < NumDirect nachos \<and>
   ok_chain nachos one_node \<and> int (length (chain one_node)) * MaxFileSize nachos \<le> 3840 \<and>
   snd (ByteToSector nachos one_node 3840) = Inr (- 1) \<and>
   (0::int) \<le> 100 \<and> Allocate nachos [False] (FileHeader nachos) 100 = Inr ([True], one_node, True) \<and>
   divRoundUp 100 (SectorSize nachos) * SectorSize nachos \<le> 128 \<and>
   snd (ByteToSector nachos one_node 128) = Inr (- 1) \<and>
   (100::int) \<le> 120 \<and> 120 < divRoundUp 100 (SectorSize nachos) * SectorSize nachos \<and>
   snd (ByteToSector nachos one_node (100 - 1)) = Inr 0 \<and>
   snd (ByteToSector nachos one_node 120) = Inr 0"
proof -
  have k: "0 < SectorSize nachos" "0 < NumDirect nachos"
    by (simp_all add: nachos_def)
  have a: "ok_chain nachos one_node" by code_simp
  have b: "int (length (chain one_node)) * MaxFileSize nachos \<le> 3840" by code_simp
  have c: "Allocate nachos [False] (FileHeader nachos) 100 = Inr ([True], one_node, True)"
    by code_simp
  have d: "divRoundUp 100 (SectorSize nachos) * SectorSize nachos \<le> 128" by code_simp
  have e: "(100::int) \<le> 120" "120 < divRoundUp 100 (SectorSize nachos) * SectorSize nachos"
    by code_simp+
  have f: "snd (ByteToSector nachos one_node (100 - 1)) = Inr 0" by code_simp
  from ByteToSector_not_found [OF k, of one_node 3840 100 "[False]" "[True]"] a b
  have 1: "snd (ByteToSector nachos one_node 3840) = Inr (- 1)" by blast
  from ByteToSector_not_found [OF k, of one_node 128 100 "[False]" "[True]"] c d
  have 2: "snd (ByteToSector nachos one_node 128) = Inr (- 1)" by simp
  from ByteToSector_not_found [OF k, of one_node 120 100 "[False]" "[True]"] c e
  obtain s where "snd (ByteToSector nachos one_node 120) = Inr s"
    "snd (ByteToSector nachos one_node (100 - 1)) = Inr s" by auto
  with f have 3: "snd (ByteToSector nachos one_node 120) = Inr 0" by simp
  from 1 2 3 k a b c d e f show ?thesis by simp
qed

subsection \<open>C8: the continuation pointer and the continuation sector\<close>

text \<open>
  Claim C8 says that in every state the public operations reach, \<^verbatim>\<open>nextHeader\<close> is
  non-null if and only if \<^verbatim>\<open>nextHeaderSector\<close> is not \<open>-1\<close>. \<open>Allocate\<close> breaks it on
  the path where the claim of the continuation's header sector fails: with exactly 30
  free sectors and a request of 3841 bytes, the call returns \<open>FALSE\<close> and leaves
  \<^verbatim>\<open>nextHeaderSector = -1\<close> next to a deleted, non-null \<^verbatim>\<open>nextHeader\<close>.
\<close>

theorem Allocate_leaves_dangling_pointer:
  "Allocate nachos (replicate 30 False) (FileHeader nachos) 3841 =
     Inr (replicate 30 True, out_of_sectors, False) \<and>
   nextHeader out_of_sectors \<noteq> Null \<and> nextHeaderSector out_of_sectors = - 1"
proof -
  have "Allocate nachos (replicate 30 False) (FileHeader nachos) 3841 =
     Inr (replicate 30 True, out_of_sectors, False)"
    by code_simp
  then show ?thesis by (simp add: out_of_sectors_def)
qed

subsection \<open>C9: Deallocate clears every data sector or halts\<close>

text \<open>
  Claim C9 as stated, that the assertion cannot fail once every direct sector of the chain
  is marked used, fails when a sector occurs twice in the chain: the second visit finds it
  already cleared.
\<close>

theorem Deallocate_double_free_counterexample:
  "data_sectors twice = [5, 5] \<and> Test (replicate 6 True) 5 \<and>
   Deallocate (replicate 6 True) twice = Inl AssertionFailed"
proof -
  have "data_sectors twice = [5, 5]" by code_simp
  moreover have "Test (replicate 6 True) 5" by code_simp
  moreover have "Deallocate (replicate 6 True) twice = Inl AssertionFailed" by code_simp
  ultimately show ?thesis by simp
qed

text \<open>
  Claim C9, amended. \<open>Deallocate\<close> deallocates the continuation first and then walks this
  node's \<open>numSectors\<close> entries, halting on the assertion at an entry that is free in the
  map and clearing it otherwise. On a chain without a dangling pointer whose
  \<open>numSectors\<close> fit the tables: if the direct sectors of the chain are marked used and
  pairwise distinct, the call returns, and the map it leaves marks exactly the sectors
  marked before that are not direct sectors of the chain; otherwise the call halts on the
  assertion.
\<close>

theorem Deallocate_clears_or_halts:
  assumes "tables_ok h"
  shows "(distinct (data_sectors h) \<and> (\<forall>s \<in> set (data_sectors h). Test freeMap s) \<longrightarrow>
           (\<exists>m'. Deallocate freeMap h = Inr m' \<and> length m' = length freeMap \<and>
              (\<forall>s. Test m' s \<longleftrightarrow> Test freeMap s \<and> s \<notin> set (data_sectors h)))) \<and>
         (\<not> (distinct (data_sectors h) \<and> (\<forall>s \<in> set (data_sectors h). Test freeMap s)) \<longrightarrow>
           Deallocate freeMap h = Inl AssertionFailed)"
proof -
  have sub: "set (data_sectors h) \<subseteq> marked freeMap \<longleftrightarrow> (\<forall>s \<in> set (data_sectors h). Test freeMap s)"
    by (auto simp: marked_def)
  have mk: "marked m' = marked freeMap - set (data_sectors h) \<longleftrightarrow>
      (\<forall>s. Test m' s \<longleftrightarrow> Test freeMap s \<and> s \<notin> set (data_sectors h))" for m'
    by (auto simp: marked_def)
  from Deallocate_spec [OF assms, of freeMap] show ?thesis
    unfolding sub mk .
qed

theorem Deallocate_clears_or_halts_witness:
  "tables_ok two_nodes \<and> distinct (data_sectors two_nodes) \<and>
   list_all (Test (replicate 41 True)) (data_sectors two_nodes) \<and>
   Deallocate (replicate 41 True) two_nodes = Inr (replicate 30 False @ True # replicate 10 False) \<and>
   filter (Test (replicate 30 False @ True # replicate 10 False)) (data_sectors two_nodes) = [] \<and>
   tables_ok twice \<and> \<not> distinct (data_sectors twice) \<and>
   Deallocate (replicate 6 True) twice = Inl AssertionFailed"
proof -
  have a: "tables_ok two_nodes" by code_simp
  have b: "distinct (data_sectors two_nodes)" by code_simp
  have c: "list_all (Test (replicate 41 True)) (data_sectors two_nodes)" by code_simp
  have d: "Deallocate (replicate 41 True) two_nodes = Inr (replicate 30 False @ True # replicate 10 False)"
    by code_simp
  have e: "tables_ok twice" by code_simp
  have f: "\<not> distinct (data_sectors twice)" by code_simp
  from c have c': "\<forall>s \<in> set (data_sectors two_nodes). Test (replicate 41 True) s"
    by (simp add: list_all_iff)
  from Deallocate_clears_or_halts [OF a, of "replicate 41 True"] b c' obtain m' where
    "Deallocate (replicate 41 True) two_nodes = Inr m'"
    "\<forall>s. Test m' s \<longleftrightarrow> Test (replicate 41 True) s \<and> s \<notin> set (data_sectors two_nodes)"
    by blast
  with d
  have "filter (Test (replicate 30 False @ True # replicate 10 False)) (data_sectors two_nodes) = []"
    by (simp add: filter_empty_conv)
  moreover from Deallocate_clears_or_halts [OF e, of "replicate 6 True"] f
  have "Deallocate (replicate 6 True) twice = Inl AssertionFailed" by blast
  ultimately show ?thesis using a b c d e f by simp
qed

subsection \<open>C10: the queries change nothing\<close>

text \<open>
  Claim C10. \<open>ByteToSector\<close> and \<open>FileLength\<close> leave every field of every node of the
  chain as it was, for every chain and every offset; their value is a function of the
  chain (and the offset) alone, and they are given neither a map nor a disk to change.
\<close>

theorem queries_leave_the_chain_unchanged:
  "fst (ByteToSector c h offset) = h \<and> fst (FileLength h) = h"
  by (simp add: ByteToSector_frame FileLength_frame)

end
